theory Spec2Isabelle
  imports Main "HOL-Library.Word"
begin

section \<open>Strings\<close>

text \<open>
  A JavaScript string is a sequence of 16-bit code units, and a regular expression
  without the \<open>u\<close> flag (none of this program's patterns has it) matches code unit by
  code unit.  \<open>js\<close> writes an ASCII literal as such a sequence.
\<close>

type_synonym cu = "16 word"
type_synonym jsstring = "cu list"

definition js :: "string \<Rightarrow> jsstring" where
  "js s = map of_char s"

section \<open>The regular expressions of the platform\<close>

text \<open>
  The part of ECMAScript's pattern language that the program's literals use: a character,
  a character class (a list of inclusive ranges), sequence, alternation, the greedy
  star (\<open>r+\<close> is \<open>r\<close> followed by \<open>r*\<close>), the negative lookahead \<open>(?!r)\<close>, a capturing
  group (no pattern of the program has more than one), and the assertions \<open>^\<close> and
  \<open>$\<close> without the \<open>m\<close> flag.  \<open>(?:r)\<close> only groups and has no node of its own.
\<close>

datatype regex =
    Eps
  | Lit cu
  | Class "(cu \<times> cu) list"
  | Seq regex regex
  | Alt regex regex
  | Star regex
  | NegLookahead regex
  | Group regex
  | Bol
  | Eol

definition Plus :: "regex \<Rightarrow> regex" where
  "Plus r = Seq r (Star r)"

fun lits :: "jsstring \<Rightarrow> regex" where
  "lits [] = Eps"
| "lits [c] = Lit c"
| "lits (c # cs) = Seq (Lit c) (lits cs)"

text \<open>
  Canonicalize of the \<open>i\<close> flag (without \<open>u\<close>): a code unit is compared through its
  upper case, except that a code unit outside ASCII is never mapped into ASCII.  Every
  character of the program's patterns is ASCII, so only the ASCII letters matter: a code
  unit outside ASCII keeps a canonical form outside ASCII and matches none of them.
\<close>

definition ascii_upper :: "cu \<Rightarrow> cu" where
  "ascii_upper c = (if 0x61 \<le> c \<and> c \<le> 0x7A then c - 0x20 else c)"

definition ascii_lower :: "cu \<Rightarrow> cu" where
  "ascii_lower c = (if 0x41 \<le> c \<and> c \<le> 0x5A then c + 0x20 else c)"

definition canonicalize :: "bool \<Rightarrow> cu \<Rightarrow> cu" where
  "canonicalize ignoreCase c = (if ignoreCase then ascii_upper c else c)"

definition in_ranges :: "(cu \<times> cu) list \<Rightarrow> cu \<Rightarrow> bool" where
  "in_ranges rs c = list_ex (\<lambda>(lo, hi). lo \<le> c \<and> c \<le> hi) rs"

text \<open>
  A class matches a code unit when one of its members has the same canonical form; under
  the \<open>i\<close> flag those members are the code unit itself and its other ASCII case.
\<close>

definition class_matches :: "bool \<Rightarrow> (cu \<times> cu) list \<Rightarrow> cu \<Rightarrow> bool" where
  "class_matches ignoreCase rs c =
     (in_ranges rs c \<or> (ignoreCase \<and> (in_ranges rs (ascii_upper c) \<or> in_ranges rs (ascii_lower c))))"

text \<open>
  The backtracking matcher.  A state is the index reached, the input still to read and
  the capture of group 1.  \<open>ms r st\<close> lists every state in which a match of \<open>r\<close>
  started at \<open>st\<close> can end, in the order in which the backtracking engine tries them:
  the first is the match it reports.  The star tries one more iteration before it stops
  and refuses an iteration that reads nothing, as RepeatMatcher does.
\<close>

type_synonym mstate = "nat \<times> jsstring \<times> jsstring option"

fun ms :: "bool \<Rightarrow> regex \<Rightarrow> mstate \<Rightarrow> mstate list" where
  "ms ic Eps st = [st]"
| "ms ic (Lit c) (i, s, cap) =
     (case s of [] \<Rightarrow> []
      | x # xs \<Rightarrow> if canonicalize ic x = canonicalize ic c then [(Suc i, xs, cap)] else [])"
| "ms ic (Class rs) (i, s, cap) =
     (case s of [] \<Rightarrow> []
      | x # xs \<Rightarrow> if class_matches ic rs x then [(Suc i, xs, cap)] else [])"
| "ms ic (Seq a b) st = concat (map (ms ic b) (ms ic a st))"
| "ms ic (Alt a b) st = ms ic a st @ ms ic b st"
| "ms ic (Star r) (i, s, cap) =
     concat (map (\<lambda>(j, t, c). if length t < length s then ms ic (Star r) (j, t, c) else [])
                 (ms ic r (i, s, cap)))
     @ [(i, s, cap)]"
| "ms ic (NegLookahead r) st = (if ms ic r st = [] then [st] else [])"
| "ms ic (Group r) (i, s, cap) =
     map (\<lambda>(j, t, c). (j, t, Some (take (j - i) s))) (ms ic r (i, s, cap))"
| "ms ic Bol (i, s, cap) = (if i = 0 then [(i, s, cap)] else [])"
| "ms ic Eol (i, s, cap) = (if s = [] then [(i, s, cap)] else [])"

text \<open>A match attempt at one index: the input after the match and the capture.\<close>

definition match_at :: "bool \<Rightarrow> regex \<Rightarrow> nat \<Rightarrow> jsstring \<Rightarrow> (jsstring \<times> jsstring option) option" where
  "match_at ic r i s = (case ms ic r (i, s, None) of [] \<Rightarrow> None | (j, t, cap) # _ \<Rightarrow> Some (t, cap))"

text \<open>
  RegExpBuiltinExec from index \<open>i\<close>: the leftmost index at which the pattern matches.
  The result is the text skipped before the match, the text after it and the capture.
\<close>

fun exec_from :: "bool \<Rightarrow> regex \<Rightarrow> nat \<Rightarrow> jsstring \<Rightarrow> (jsstring \<times> jsstring \<times> jsstring option) option" where
  "exec_from ic r i [] =
     (case match_at ic r i [] of None \<Rightarrow> None | Some (t, cap) \<Rightarrow> Some ([], t, cap))"
| "exec_from ic r i (c # cs) =
     (case match_at ic r i (c # cs) of
        Some (t, cap) \<Rightarrow> Some ([], t, cap)
      | None \<Rightarrow> (case exec_from ic r (Suc i) cs of
                   None \<Rightarrow> None
                 | Some (pre, t, cap) \<Rightarrow> Some (c # pre, t, cap)))"

text \<open>\<open>regex.test(s)\<close> on a regex whose lastIndex is 0, as a fresh literal's is.\<close>

definition regex_test :: "bool \<Rightarrow> regex \<Rightarrow> jsstring \<Rightarrow> bool" where
  "regex_test ic r s = (exec_from ic r 0 s \<noteq> None)"

text \<open>A replacement string, parsed: literal text and \<open>$1\<close>.\<close>

datatype repl = Txt jsstring | Cap1

fun expand :: "repl list \<Rightarrow> jsstring option \<Rightarrow> jsstring" where
  "expand [] cap = []"
| "expand (Txt t # ps) cap = t @ expand ps cap"
| "expand (Cap1 # ps) cap = (case cap of None \<Rightarrow> [] | Some c \<Rightarrow> c) @ expand ps cap"

text \<open>
  \<open>s.replace(regex, replacement)\<close> with the \<open>g\<close> flag: lastIndex is reset to 0, every
  match is replaced, the search resumes where the match ended, and after an empty match
  one code unit further.
\<close>

fun replace_all :: "bool \<Rightarrow> regex \<Rightarrow> repl list \<Rightarrow> nat \<Rightarrow> jsstring \<Rightarrow> jsstring" where
  "replace_all ic r tm i [] =
     (case match_at ic r i [] of None \<Rightarrow> [] | Some (t, cap) \<Rightarrow> expand tm cap)"
| "replace_all ic r tm i (c # cs) =
     (case match_at ic r i (c # cs) of
        None \<Rightarrow> c # replace_all ic r tm (Suc i) cs
      | Some (t, cap) \<Rightarrow>
          if length t < Suc (length cs)
          then expand tm cap @ replace_all ic r tm (i + (Suc (length cs) - length t)) t
          else expand tm cap @ c # replace_all ic r tm (Suc i) cs)"

text \<open>\<open>s.replace(regex, replacement)\<close> without the \<open>g\<close> flag: the first match only.\<close>

definition replace_first :: "bool \<Rightarrow> regex \<Rightarrow> repl list \<Rightarrow> jsstring \<Rightarrow> jsstring" where
  "replace_first ic r tm s =
     (case exec_from ic r 0 s of None \<Rightarrow> s | Some (pre, t, cap) \<Rightarrow> pre @ expand tm cap @ t)"

section \<open>The parsed document\<close>

text \<open>
  What \<open>validateXML\<close> reads of the document that DOMParser returns: the element tree
  with its text.  \<open>querySelector\<close> with a type selector returns the first element of
  that name in document order; \<open>textContent\<close> is the text of all descendants.
\<close>

datatype node = Element jsstring "node list" | TextNode jsstring

type_synonym document = "node list"

fun textContent :: "node \<Rightarrow> jsstring" where
  "textContent (TextNode t) = t"
| "textContent (Element n children) = concat (map textContent children)"

fun querySelector :: "jsstring \<Rightarrow> node list \<Rightarrow> node option" where
  "querySelector sel [] = None"
| "querySelector sel (TextNode t # rest) = querySelector sel rest"
| "querySelector sel (Element n children # rest) =
     (if n = sel then Some (Element n children)
      else case querySelector sel children of
             Some e \<Rightarrow> Some e
           | None \<Rightarrow> querySelector sel rest)"

section \<open>repairService.ts\<close>

record ValidationOutcome =
  isValid :: bool
  errors :: "jsstring list"

text \<open>
  \<open>RepairResult\<close> of types.ts has the two fields of the validation outcome and two
  more.
\<close>

record RepairResult = ValidationOutcome +
  fixedContent :: jsstring
  wasModified :: bool

text \<open>
  \<open>validateXML\<close>.  The platform's \<open>parser.parseFromString(xml, "application/xml")\<close> is
  the parameter \<open>parseFromString\<close>; it returns a document for every string and does not
  throw, and neither do \<open>querySelector\<close> and \<open>textContent\<close>, so the model has no
  exceptional result.  The empty string is falsy: \<open>textContent || "..."\<close> takes the
  placeholder then.
\<close>

definition validateXML :: "(jsstring \<Rightarrow> document) \<Rightarrow> jsstring \<Rightarrow> ValidationOutcome" where
  "validateXML parseFromString xml =
     (let doc = parseFromString xml;
          errorNode = querySelector (js ''parsererror'') doc
      in case errorNode of
           Some e \<Rightarrow>
             \<lparr>isValid = False,
              errors = [if textContent e = [] then js ''Unknown XML parsing error''
                        else textContent e]\<rparr>
         | None \<Rightarrow> \<lparr>isValid = True, errors = []\<rparr>)"

text \<open>\<open>/[\x00-\x08\x0B\x0C\x0E-\x1F]/g\<close>\<close>

definition illegalCharRegex :: regex where
  "illegalCharRegex = Class [(0x00, 0x08), (0x0B, 0x0B), (0x0C, 0x0C), (0x0E, 0x1F)]"

text \<open>\<open>/&(?!(?:amp|lt|gt|apos|quot|#\d+|#x[a-f\d]+);)/gi\<close>\<close>

definition digit_class :: "(cu \<times> cu) list" where
  "digit_class = [(0x30, 0x39)]"

definition entityLookahead :: regex where
  "entityLookahead =
     Seq (Alt (lits (js ''amp''))
         (Alt (lits (js ''lt''))
         (Alt (lits (js ''gt''))
         (Alt (lits (js ''apos''))
         (Alt (lits (js ''quot''))
         (Alt (Seq (Lit 0x23) (Plus (Class digit_class)))
              (Seq (Lit 0x23) (Seq (Lit 0x78) (Plus (Class ((0x61, 0x66) # digit_class)))))))))))
         (Lit 0x3B)"

definition unescapedAmpRegex :: regex where
  "unescapedAmpRegex = Seq (Lit 0x26) (NegLookahead entityLookahead)"

text \<open>
  \<open>/<(\s)/g\<close>.  \<open>\s\<close> is ECMAScript's WhiteSpace and LineTerminator: U+0009 to
  U+000D, the space, U+00A0, U+1680, U+2000 to U+200A, U+2028, U+2029, U+202F, U+205F,
  U+3000 and U+FEFF.
\<close>

definition space_class :: "(cu \<times> cu) list" where
  "space_class =
     [(0x09, 0x0D), (0x20, 0x20), (0xA0, 0xA0), (0x1680, 0x1680), (0x2000, 0x200A),
      (0x2028, 0x2029), (0x202F, 0x202F), (0x205F, 0x205F), (0x3000, 0x3000), (0xFEFF, 0xFEFF)]"

definition unescapedLtRegex :: regex where
  "unescapedLtRegex = Seq (Lit 0x3C) (Group (Class space_class))"

text \<open>\<open>/<\/([a-zA-Z0-9-_]+)$/\<close>\<close>

definition name_class :: "(cu \<times> cu) list" where
  "name_class = [(0x61, 0x7A), (0x41, 0x5A), (0x30, 0x39), (0x2D, 0x2D), (0x5F, 0x5F)]"

definition malformedClosingRegex :: regex where
  "malformedClosingRegex =
     Seq (Lit 0x3C) (Seq (Lit 0x2F) (Seq (Group (Plus (Class name_class))) Eol))"

text \<open>The four fixes of \<open>heuristicRepair\<close>, each behind the \<open>test\<close> that guards it.\<close>

definition stripIllegalChars :: "jsstring \<Rightarrow> jsstring" where
  "stripIllegalChars content =
     (if regex_test False illegalCharRegex content
      then replace_all False illegalCharRegex [] 0 content
      else content)"

definition fixAmpersands :: "jsstring \<Rightarrow> jsstring" where
  "fixAmpersands content =
     (if regex_test True unescapedAmpRegex content
      then replace_all True unescapedAmpRegex [Txt (js ''&amp;'')] 0 content
      else content)"

definition fixBareLt :: "jsstring \<Rightarrow> jsstring" where
  "fixBareLt content =
     (if regex_test False unescapedLtRegex content
      then replace_all False unescapedLtRegex [Txt (js ''&lt;''), Cap1] 0 content
      else content)"

definition fixTruncatedClosing :: "jsstring \<Rightarrow> jsstring" where
  "fixTruncatedClosing content =
     (if regex_test False malformedClosingRegex content
      then replace_first False malformedClosingRegex [Txt (js ''</''), Cap1, Txt (js ''>'')] content
      else content)"

definition heuristicRepair :: "(jsstring \<Rightarrow> document) \<Rightarrow> jsstring \<Rightarrow> RepairResult" where
  "heuristicRepair parseFromString rawContent =
     (let original = rawContent;
          content = rawContent;
          content = stripIllegalChars content;
          content = fixAmpersands content;
          content = fixBareLt content;
          content = fixTruncatedClosing content;
          wasModified = (content \<noteq> original);
          validation = validateXML parseFromString content
      in \<lparr>isValid = isValid validation,
          errors = errors validation,
          fixedContent = content,
          wasModified = wasModified\<rparr>)"

section \<open>geminiService.ts\<close>

text \<open>
  \<open>repairWithGemini\<close> is asynchronous: its promise is rejected with an error message
  (\<open>Inl\<close>) or fulfilled with a result (\<open>Inr\<close>).  The environment variable and the model
  call are parameters: \<open>apiKey\<close> is \<open>None\<close> when \<open>process.env.API_KEY\<close> is undefined,
  and \<open>generateContent\<close> is given the key and the user text of the request.  The call
  throws an error, whose message may be missing, or answers with a response whose
  \<open>text\<close> may be undefined.
\<close>

datatype generation = Throws "jsstring option" | Response "jsstring option"

definition or_else :: "jsstring option \<Rightarrow> jsstring \<Rightarrow> jsstring" where
  "or_else v d = (case v of None \<Rightarrow> d | Some t \<Rightarrow> if t = [] then d else t)"

definition fence :: jsstring where
  "fence = [0x60, 0x60, 0x60]"

definition repairWithGemini ::
  "(jsstring \<Rightarrow> document) \<Rightarrow> jsstring option \<Rightarrow> (jsstring \<Rightarrow> jsstring \<Rightarrow> generation)
     \<Rightarrow> jsstring \<Rightarrow> jsstring + RepairResult" where
  "repairWithGemini parseFromString apiKey generateContent brokenContent =
     (case apiKey of
        None \<Rightarrow> Inl (js ''API Key not found. Please select a key.'')
      | Some key \<Rightarrow>
          if key = [] then Inl (js ''API Key not found. Please select a key.'')
          else
            (case generateContent key
                    (js ''Here is the broken XLIFF content:'' @ [0x0A, 0x0A] @ brokenContent) of
               Throws message \<Rightarrow> Inl (or_else message (js ''Failed to repair with AI''))
             | Response text \<Rightarrow>
                 (let fixedContent = or_else text [];
                      fixedContent =
                        replace_first False (Seq Bol (lits (fence @ js ''xml'' @ [0x0A]))) []
                          fixedContent;
                      fixedContent =
                        replace_first False (Seq Bol (lits (fence @ [0x0A]))) [] fixedContent;
                      fixedContent =
                        replace_first False (Seq (lits (0x0A # fence)) Eol) [] fixedContent;
                      validation = validateXML parseFromString fixedContent
                  in Inr \<lparr>isValid = isValid validation,
                          errors = errors validation,
                          fixedContent = fixedContent,
                          wasModified = True\<rparr>)))"

section \<open>The fixes in the words of the specification\<close>

text \<open>
  The character sets and the four fixes as the specification describes them, to be
  compared with the regular expressions of the code.
\<close>

definition illegal_control :: "cu \<Rightarrow> bool" where
  "illegal_control c = (c \<le> 0x08 \<or> c = 0x0B \<or> c = 0x0C \<or> (0x0E \<le> c \<and> c \<le> 0x1F))"

definition is_digit :: "cu \<Rightarrow> bool" where
  "is_digit c = (0x30 \<le> c \<and> c \<le> 0x39)"

definition is_hex_digit :: "cu \<Rightarrow> bool" where
  "is_hex_digit c = (is_digit c \<or> (0x61 \<le> c \<and> c \<le> 0x66) \<or> (0x41 \<le> c \<and> c \<le> 0x46))"

definition js_whitespace :: "cu \<Rightarrow> bool" where
  "js_whitespace c =
     ((0x09 \<le> c \<and> c \<le> 0x0D) \<or> c = 0x20 \<or> c = 0xA0 \<or> c = 0x1680 \<or>
      (0x2000 \<le> c \<and> c \<le> 0x200A) \<or> (0x2028 \<le> c \<and> c \<le> 0x2029) \<or> c = 0x202F \<or>
      c = 0x205F \<or> c = 0x3000 \<or> c = 0xFEFF)"

definition is_name_char :: "cu \<Rightarrow> bool" where
  "is_name_char c =
     ((0x61 \<le> c \<and> c \<le> 0x7A) \<or> (0x41 \<le> c \<and> c \<le> 0x5A) \<or> (0x30 \<le> c \<and> c \<le> 0x39) \<or>
      c = 0x2D \<or> c = 0x5F)"

definition starts_with :: "jsstring \<Rightarrow> jsstring \<Rightarrow> bool" where
  "starts_with p s = (take (length p) s = p)"

text \<open>\<open>p\<close>, written in lower case, starts \<open>s\<close> in any mix of cases.\<close>

definition starts_with_ci :: "jsstring \<Rightarrow> jsstring \<Rightarrow> bool" where
  "starts_with_ci p s = (map ascii_lower (take (length p) s) = p)"

text \<open>One or more characters of a kind, then a semicolon.\<close>

definition run_then_semicolon :: "(cu \<Rightarrow> bool) \<Rightarrow> jsstring \<Rightarrow> bool" where
  "run_then_semicolon P s = (takeWhile P s \<noteq> [] \<and> starts_with (js '';'') (dropWhile P s))"

text \<open>
  The text after an \<open>&\<close> that makes it the start of a recognized entity reference.
  In \<open>entity_tail_strict\<close> only the hexadecimal digits may be in either case; in
  \<open>entity_tail_ci\<close> the names and the \<open>x\<close> may be too.
\<close>

definition entity_tail_strict :: "jsstring \<Rightarrow> bool" where
  "entity_tail_strict s =
     (starts_with (js ''amp;'') s \<or> starts_with (js ''lt;'') s \<or> starts_with (js ''gt;'') s \<or>
      starts_with (js ''apos;'') s \<or> starts_with (js ''quot;'') s \<or>
      (starts_with (js ''#'') s \<and> run_then_semicolon is_digit (drop 1 s)) \<or>
      (starts_with (js ''#x'') s \<and> run_then_semicolon is_hex_digit (drop 2 s)))"

definition entity_tail_ci :: "jsstring \<Rightarrow> bool" where
  "entity_tail_ci s =
     (starts_with_ci (js ''amp;'') s \<or> starts_with_ci (js ''lt;'') s \<or>
      starts_with_ci (js ''gt;'') s \<or> starts_with_ci (js ''apos;'') s \<or>
      starts_with_ci (js ''quot;'') s \<or>
      (starts_with (js ''#'') s \<and> run_then_semicolon is_digit (drop 1 s)) \<or>
      (starts_with_ci (js ''#x'') s \<and> run_then_semicolon is_hex_digit (drop 2 s)))"

text \<open>
  Replace every \<open>&\<close> that is not the start of a recognized entity reference with
  \<open>&amp;\<close> and leave every other character as it is.
\<close>

fun escape_amp_with :: "(jsstring \<Rightarrow> bool) \<Rightarrow> jsstring \<Rightarrow> jsstring" where
  "escape_amp_with recognized [] = []"
| "escape_amp_with recognized (c # cs) =
     (if c = 0x26 \<and> \<not> recognized cs
      then js ''&amp;'' @ escape_amp_with recognized cs
      else c # escape_amp_with recognized cs)"

text \<open>
  Replace every \<open><\<close> that is immediately followed by whitespace with \<open>&lt;\<close>; the
  whitespace character, like every other character, stays.
\<close>

definition followed_by_space :: "jsstring \<Rightarrow> bool" where
  "followed_by_space cs = (case cs of [] \<Rightarrow> False | d # _ \<Rightarrow> js_whitespace d)"

fun escape_bare_lt :: "jsstring \<Rightarrow> jsstring" where
  "escape_bare_lt [] = []"
| "escape_bare_lt (c # cs) =
     (if c = 0x3C \<and> followed_by_space cs
      then js ''&lt;'' @ escape_bare_lt cs
      else c # escape_bare_lt cs)"

text \<open>
  The text ends with a partial closing tag: \<open></\<close>, then a name of one or more name
  characters that runs to the end of the text.
\<close>

definition ends_with_partial_closing :: "jsstring \<Rightarrow> bool" where
  "ends_with_partial_closing s =
     (let name = takeWhile is_name_char (rev s);
          front = dropWhile is_name_char (rev s)
      in name \<noteq> [] \<and> starts_with (js ''/<'') front)"

text \<open>Every \<open>&\<close> of the text starts a recognized entity reference.\<close>

fun all_amp_escaped :: "jsstring \<Rightarrow> bool" where
  "all_amp_escaped [] = True"
| "all_amp_escaped (c # cs) = ((c \<noteq> 0x26 \<or> entity_tail_ci cs) \<and> all_amp_escaped cs)"

text \<open>No \<open><\<close> of the text is immediately followed by whitespace.\<close>

fun no_bare_lt :: "jsstring \<Rightarrow> bool" where
  "no_bare_lt [] = True"
| "no_bare_lt (c # cs) = (\<not> (c = 0x3C \<and> followed_by_space cs) \<and> no_bare_lt cs)"

text \<open>
  The recognized entity tails themselves: \<open>amp;\<close>, \<open>lt;\<close>, \<open>gt;\<close>, \<open>apos;\<close>, \<open>quot;\<close>,
  \<open>#\<close> digits \<open>;\<close> and \<open>#x\<close> hexadecimal digits \<open>;\<close>, in any mix of cases.
\<close>

definition recognized_tail :: "jsstring \<Rightarrow> bool" where
  "recognized_tail t =
     (map ascii_lower t \<in> {js ''amp;'', js ''lt;'', js ''gt;'', js ''apos;'', js ''quot;''} \<or>
      (\<exists>ds. ds \<noteq> [] \<and> (\<forall>d\<in>set ds. is_digit d) \<and> t = js ''#'' @ ds @ js '';'') \<or>
      (\<exists>x hs. ascii_lower x = 0x78 \<and> hs \<noteq> [] \<and> (\<forall>h\<in>set hs. is_hex_digit h) \<and>
         t = 0x23 # x # hs @ js '';''))"

section \<open>A reference parser for closed examples\<close>

text \<open>
  The theorems below hold for every parser.  Their closed instances need one, so here is
  a parser for a fragment of XML 1.0: one root element; elements without attributes,
  written \<open><n>...</n>\<close> or \<open><n/>\<close> with ASCII names; character data; the five
  predefined entity references; CDATA sections; white space around the root.  It
  accepts only well-formed documents and returns their tree (a CDATA section as text).
  Everything else, also well-formed text outside the fragment, gives the document with
  a \<open>parsererror\<close> element that a failed parse gives.
\<close>

definition xml_space :: "cu \<Rightarrow> bool" where
  "xml_space c = (c = 0x20 \<or> c = 0x09 \<or> c = 0x0A \<or> c = 0x0D)"

definition xml_char :: "cu \<Rightarrow> bool" where
  "xml_char c =
     (c = 0x09 \<or> c = 0x0A \<or> c = 0x0D \<or> (0x20 \<le> c \<and> c \<le> 0xD7FF) \<or>
      (0xE000 \<le> c \<and> c \<le> 0xFFFD))"

definition name_start :: "cu \<Rightarrow> bool" where
  "name_start c =
     ((0x61 \<le> c \<and> c \<le> 0x7A) \<or> (0x41 \<le> c \<and> c \<le> 0x5A) \<or> c = 0x5F \<or> c = 0x3A)"

definition name_part :: "cu \<Rightarrow> bool" where
  "name_part c = (name_start c \<or> (0x30 \<le> c \<and> c \<le> 0x39) \<or> c = 0x2D \<or> c = 0x2E)"

datatype pmode =
    InText nat
  | AfterLt
  | InOpen jsstring
  | InEmpty jsstring
  | InClose jsstring
  | InBang jsstring
  | InCData jsstring
  | InRef jsstring
  | Broken

text \<open>
  The parser's state: where it is, the open elements (innermost first) with the children
  read so far, and the root once it is closed.  \<open>InText k\<close> has just read \<open>k\<close>
  closing square brackets, since \<open>]]>\<close> may not occur in character data.
\<close>

type_synonym pconf = "pmode \<times> (jsstring \<times> node list) list \<times> node option"

fun add_text :: "jsstring \<Rightarrow> node list \<Rightarrow> node list" where
  "add_text t [] = [TextNode t]"
| "add_text t [TextNode u] = [TextNode (u @ t)]"
| "add_text t (n # ns) = n # add_text t ns"

definition put_text :: "jsstring \<Rightarrow> (jsstring \<times> node list) list \<Rightarrow> (jsstring \<times> node list) list" where
  "put_text t st = (case st of [] \<Rightarrow> [] | (n, ch) # rest \<Rightarrow> (n, add_text t ch) # rest)"

definition add_child ::
  "node \<Rightarrow> (jsstring \<times> node list) list \<Rightarrow> node option
     \<Rightarrow> (jsstring \<times> node list) list \<times> node option" where
  "add_child e st root =
     (case st of [] \<Rightarrow> ([], Some e) | (n, ch) # rest \<Rightarrow> ((n, ch @ [e]) # rest, root))"

definition decode_entity :: "jsstring \<Rightarrow> jsstring option" where
  "decode_entity n =
     (if n = js ''amp'' then Some (js ''&'')
      else if n = js ''lt'' then Some (js ''<'')
      else if n = js ''gt'' then Some (js ''>'')
      else if n = js ''apos'' then Some [0x27]
      else if n = js ''quot'' then Some [0x22]
      else None)"

fun pstep :: "pconf \<Rightarrow> cu \<Rightarrow> pconf" where
  "pstep (InText k, st, root) c =
     (if c = 0x3C then (AfterLt, st, root)
      else if st = [] then (if xml_space c then (InText 0, st, root) else (Broken, st, root))
      else if c = 0x26 then (InRef [], st, root)
      else if c = 0x3E \<and> 2 \<le> k then (Broken, st, root)
      else if xml_char c then (InText (if c = 0x5D then Suc k else 0), put_text [c] st, root)
      else (Broken, st, root))"
| "pstep (AfterLt, st, root) c =
     (if c = 0x2F then (if st = [] then (Broken, st, root) else (InClose [], st, root))
      else if c = 0x21 then
        (if st = [] then (Broken, st, root) else (InBang (js ''[CDATA[''), st, root))
      else if name_start c \<and> (st \<noteq> [] \<or> root = None) then (InOpen [c], st, root)
      else (Broken, st, root))"
| "pstep (InOpen n, st, root) c =
     (if name_part c then (InOpen (n @ [c]), st, root)
      else if c = 0x3E then (InText 0, (n, []) # st, root)
      else if c = 0x2F then (InEmpty n, st, root)
      else (Broken, st, root))"
| "pstep (InEmpty n, st, root) c =
     (if c = 0x3E
      then (case add_child (Element n []) st root of (st', root') \<Rightarrow> (InText 0, st', root'))
      else (Broken, st, root))"
| "pstep (InClose n, st, root) c =
     (if name_part c then (InClose (n @ [c]), st, root)
      else if c = 0x3E then
        (case st of
           [] \<Rightarrow> (Broken, st, root)
         | (m, ch) # rest \<Rightarrow>
             if m = n
             then (case add_child (Element m ch) rest root of
                     (st', root') \<Rightarrow> (InText 0, st', root'))
             else (Broken, st, root))
      else (Broken, st, root))"
| "pstep (InBang expected, st, root) c =
     (case expected of
        [] \<Rightarrow> (Broken, st, root)
      | e # es \<Rightarrow>
          if c = e then (if es = [] then (InCData [], st, root) else (InBang es, st, root))
          else (Broken, st, root))"
| "pstep (InCData acc, st, root) c =
     (if c = 0x3E \<and> 2 \<le> length acc \<and> drop (length acc - 2) acc = js '']]''
      then (InText 0, put_text (take (length acc - 2) acc) st, root)
      else if xml_char c then (InCData (acc @ [c]), st, root)
      else (Broken, st, root))"
| "pstep (InRef acc, st, root) c =
     (if c = 0x3B then
        (case decode_entity acc of
           Some t \<Rightarrow> (InText 0, put_text t st, root)
         | None \<Rightarrow> (Broken, st, root))
      else if name_part c then (InRef (acc @ [c]), st, root)
      else (Broken, st, root))"
| "pstep (Broken, st, root) c = (Broken, st, root)"

definition parse_error_document :: document where
  "parse_error_document = [Element (js ''parsererror'') [TextNode (js ''XML parsing error'')]]"

definition parseFragment :: "jsstring \<Rightarrow> document" where
  "parseFragment s =
     (case foldl pstep (InText 0, [], None) s of
        (InText k, [], Some root) \<Rightarrow> [root]
      | _ \<Rightarrow> parse_error_document)"

text \<open>A model call for closed examples: it answers every request with one document.\<close>

definition fixedAnswer :: "jsstring \<Rightarrow> jsstring \<Rightarrow> generation" where
  "fixedAnswer key request = Response (Some (js ''<a>b</a>''))"

section \<open>Characters and classes\<close>

lemma unat_ascii_upper:
  "unat (ascii_upper c) = (if 97 \<le> unat c \<and> unat c \<le> 122 then unat c - 32 else unat c)"
proof (cases "0x61 \<le> c \<and> c \<le> 0x7A")
  case True
  then have "0x20 \<le> c" by unat_arith
  then have "unat (c - 0x20) = unat c - unat (0x20 :: cu)" by (rule unat_sub)
  moreover have "ascii_upper c = c - 0x20" using True by (simp add: ascii_upper_def)
  moreover have "97 \<le> unat c \<and> unat c \<le> 122" using True by (simp add: word_le_nat_alt)
  ultimately show ?thesis by simp
next
  case False
  then have "ascii_upper c = c" by (simp add: ascii_upper_def)
  moreover have "\<not> (97 \<le> unat c \<and> unat c \<le> 122)" using False by (simp add: word_le_nat_alt)
  ultimately show ?thesis by auto
qed

lemma unat_ascii_lower:
  "unat (ascii_lower c) = (if 65 \<le> unat c \<and> unat c \<le> 90 then unat c + 32 else unat c)"
proof (cases "0x41 \<le> c \<and> c \<le> 0x5A")
  case True
  then have "unat c + unat (0x20 :: cu) < 2 ^ LENGTH(16)" by (simp add: word_le_nat_alt)
  then have "unat (c + 0x20) = unat c + unat (0x20 :: cu)" by (simp only: unat_add_lem)
  moreover have "ascii_lower c = c + 0x20" using True by (simp add: ascii_lower_def)
  moreover have "65 \<le> unat c \<and> unat c \<le> 90" using True by (simp add: word_le_nat_alt)
  ultimately show ?thesis by simp
next
  case False
  then have "ascii_lower c = c" by (simp add: ascii_lower_def)
  moreover have "\<not> (65 \<le> unat c \<and> unat c \<le> 90)" using False by (simp add: word_le_nat_alt)
  ultimately show ?thesis by auto
qed

lemma in_ranges_Cons [simp]:
  "in_ranges ((lo, hi) # rs) c = ((lo \<le> c \<and> c \<le> hi) \<or> in_ranges rs c)"
  by (simp add: in_ranges_def)

lemma in_ranges_Nil [simp]: "in_ranges [] c = False"
  by (simp add: in_ranges_def)

lemma class_digit: "class_matches ic digit_class c = is_digit c"
  unfolding class_matches_def digit_class_def is_digit_def
  by (simp add: word_le_nat_alt unat_ascii_upper unat_ascii_lower) arith

lemma class_hex: "class_matches True ((0x61, 0x66) # digit_class) c = is_hex_digit c"
  unfolding class_matches_def digit_class_def is_digit_def is_hex_digit_def
  by (simp add: word_le_nat_alt unat_ascii_upper unat_ascii_lower) arith

lemma canonicalize_eq_lower:
  assumes c: "\<not> (0x41 \<le> c \<and> c \<le> 0x5A)"
  shows "(canonicalize True x = canonicalize True c) = (ascii_lower x = c)"
  using c
  by (simp add: canonicalize_def word_unat_eq_iff word_le_nat_alt unat_ascii_upper unat_ascii_lower) arith

lemma single_range: "((a::cu) \<le> c \<and> c \<le> a) = (c = a)"
  by auto

lemma class_illegal:
  "class_matches False [(0x00, 0x08), (0x0B, 0x0B), (0x0C, 0x0C), (0x0E, 0x1F)] c = illegal_control c"
  by (simp add: class_matches_def illegal_control_def single_range)

lemma class_space: "class_matches False space_class c = js_whitespace c"
  by (simp add: class_matches_def space_class_def js_whitespace_def single_range)

lemma class_name: "class_matches False name_class c = is_name_char c"
  by (simp add: class_matches_def name_class_def is_name_char_def single_range)

lemma canonicalize_False [simp]: "canonicalize False c = c"
  by (simp add: canonicalize_def)

section \<open>The matcher on the program's patterns\<close>

declare ms.simps(6) [simp del]

lemma js_simps: "js [] = []" "js (c # cs) = of_char c # js cs"
  by (simp_all add: js_def)

lemma ms_lits:
  "ms ic (lits p) (i, s, cap) =
     (if length p \<le> length s \<and> map (canonicalize ic) (take (length p) s) = map (canonicalize ic) p
      then [(i + length p, drop (length p) s, cap)] else [])"
proof (induction p arbitrary: i s rule: lits.induct)
  case 1
  show ?case by simp
next
  case (2 c)
  show ?case by (cases s) simp_all
next
  case (3 c d ds)
  show ?case
  proof (cases s)
    case Nil
    then show ?thesis by simp
  next
    case (Cons x xs)
    show ?thesis unfolding Cons by (simp add: 3)
  qed
qed

lemma ms_Star_Class_Cons:
  "ms ic (Star (Class rs)) (i, c # cs, cap) =
     (if class_matches ic rs c then ms ic (Star (Class rs)) (Suc i, cs, cap) else [])
     @ [(i, c # cs, cap)]"
  by (subst ms.simps(6)) simp

lemma ms_Star_Class_Nil: "ms ic (Star (Class rs)) (i, [], cap) = [(i, [], cap)]"
  by (subst ms.simps(6)) simp

lemma star_then_lit:
  assumes "\<And>x. canonicalize ic x = canonicalize ic e \<Longrightarrow> \<not> class_matches ic rs x"
  shows "concat (map (ms ic (Lit e)) (ms ic (Star (Class rs)) (i, s, cap))) =
         (case dropWhile (class_matches ic rs) s of
            [] \<Rightarrow> []
          | x # xs \<Rightarrow> if canonicalize ic x = canonicalize ic e
                     then [(Suc (i + length (takeWhile (class_matches ic rs) s)), xs, cap)] else [])"
proof (induction s arbitrary: i)
  case Nil
  show ?case by (simp add: ms_Star_Class_Nil)
next
  case (Cons c cs)
  have nc: "class_matches ic rs c \<Longrightarrow> canonicalize ic c \<noteq> canonicalize ic e"
    using assms by blast
  have hd: "\<And>x xs. dropWhile (class_matches ic rs) cs = x # xs \<Longrightarrow>
                 \<exists>y\<in>set cs. \<not> class_matches ic rs y"
    by (metis dropWhile_eq_Cons_conv in_set_conv_decomp)
  show ?case
    using hd
    by (cases "class_matches ic rs c") (simp_all add: ms_Star_Class_Cons Cons nc split: list.split)
qed


lemma canonicalize_eq_symbol:
  "c < 0x41 \<Longrightarrow> (canonicalize True x = canonicalize True c) = (x = c)"
  by (simp add: canonicalize_def word_unat_eq_iff word_less_nat_alt unat_ascii_upper) arith

lemma canonicalize_list_lower:
  "\<forall>c\<in>set p. \<not> (0x41 \<le> c \<and> c \<le> 0x5A) \<Longrightarrow>
     (map (canonicalize True) xs = map (canonicalize True) p) = (map ascii_lower xs = p)"
proof (induction p arbitrary: xs)
  case Nil
  show ?case by simp
next
  case (Cons c p)
  show ?case
  proof (cases xs)
    case Nil
    then show ?thesis by simp
  next
    case (Cons y ys)
    show ?thesis
      using Cons.prems Cons.IH [of ys] canonicalize_eq_lower [of c y]
      unfolding Cons by simp
  qed
qed

lemma ms_lits_ci:
  assumes "\<forall>c\<in>set p. \<not> (0x41 \<le> c \<and> c \<le> 0x5A)"
  shows "ms True (lits p) (i, s, cap) =
           (if starts_with_ci p s then [(i + length p, drop (length p) s, cap)] else [])"
proof -
  have len: "map ascii_lower (take (length p) s) = p \<Longrightarrow> length p \<le> length s"
  proof -
    assume "map ascii_lower (take (length p) s) = p"
    then have "length (take (length p) s) = length p" by (metis length_map)
    then show ?thesis by simp
  qed
  show ?thesis
    using len by (auto simp add: ms_lits starts_with_ci_def canonicalize_list_lower [OF assms])
qed

lemma lits_then_lit:
  "concat (map (ms ic (Lit e)) (ms ic (lits p) st)) = ms ic (lits (p @ [e])) st"
proof (induction p arbitrary: st rule: lits.induct)
  case 1
  show ?case by simp
next
  case (2 c)
  show ?case by simp
next
  case (3 c d ds)
  obtain i s cap where st: "st = (i, s, cap)" by (cases st) auto
  show ?case unfolding st using 3 by (cases s) simp_all
qed


lemma named_alternative:
  assumes "\<forall>c\<in>set p. \<not> (0x41 \<le> c \<and> c \<le> 0x5A)"
  shows "(concat (map (ms True (Lit 0x3B)) (ms True (lits p) (i, s, cap))) = []) =
         (\<not> starts_with_ci (p @ [0x3B]) s)"
proof -
  have "\<forall>c\<in>set (p @ [0x3B]). \<not> (0x41 \<le> c \<and> c \<le> (0x5A::cu))"
    using assms by simp
  then show ?thesis
    unfolding lits_then_lit by (simp add: ms_lits_ci)
qed


lemma star_then_lit_empty:
  assumes "\<And>x. canonicalize ic x = canonicalize ic e \<Longrightarrow> \<not> class_matches ic rs x"
  shows "(\<forall>st\<in>set (ms ic (Star (Class rs)) (i, s, cap)). ms ic (Lit e) st = []) =
         (case dropWhile (class_matches ic rs) s of
            [] \<Rightarrow> True | x # xs \<Rightarrow> canonicalize ic x \<noteq> canonicalize ic e)"
proof -
  let ?L = "ms ic (Star (Class rs)) (i, s, cap)"
  have A: "concat (map (ms ic (Lit e)) ?L) =
         (case dropWhile (class_matches ic rs) s of
            [] \<Rightarrow> []
          | x # xs \<Rightarrow> if canonicalize ic x = canonicalize ic e
                     then [(Suc (i + length (takeWhile (class_matches ic rs) s)), xs, cap)] else [])"
    by (rule star_then_lit [OF assms])
  have B: "(\<forall>st\<in>set ?L. ms ic (Lit e) st = []) = (concat (map (ms ic (Lit e)) ?L) = [])"
    by simp
  show ?thesis unfolding B A
    by (cases "dropWhile (class_matches ic rs) s") (simp_all del: dropWhile_eq_Nil_conv)
qed

lemma run_then_lit:
  assumes "\<not> P 0x3B" "\<And>x. class_matches True rs x = P x"
  shows "(concat (map (ms True (Lit 0x3B)) (ms True (Plus (Class rs)) (i, s, cap))) = []) =
         (\<not> run_then_semicolon P s)"
proof -
  have sep: "\<And>x. canonicalize True x = canonicalize True 0x3B \<Longrightarrow> \<not> class_matches True rs x"
    using assms by (simp add: canonicalize_eq_symbol)
  have P: "class_matches True rs = P" using assms(2) by blast
  show ?thesis
  proof (cases s)
    case Nil
    then show ?thesis by (simp add: Plus_def run_then_semicolon_def)
  next
    case (Cons d r)
    show ?thesis
      unfolding Cons
      by (cases "dropWhile P r")
         (simp_all add: Plus_def run_then_semicolon_def starts_with_def js_simps
            star_then_lit_empty [OF sep] P canonicalize_eq_symbol del: dropWhile_eq_Nil_conv)
  qed
qed


lemma decimal_alternative:
  "(concat (map (ms True (Lit 0x3B)) (ms True (Seq (Lit 0x23) (Plus (Class digit_class))) (i, s, cap))) = []) =
   (\<not> (starts_with (js ''#'') s \<and> run_then_semicolon is_digit (drop 1 s)))"
proof (cases s)
  case Nil
  then show ?thesis by (simp add: starts_with_def js_simps)
next
  case (Cons h r)
  have d: "\<not> is_digit 0x3B" by (simp add: is_digit_def)
  show ?thesis
    unfolding Cons
    by (simp add: starts_with_def js_simps canonicalize_eq_symbol run_then_lit [OF d class_digit]
          del: concat_eq_Nil_conv)
qed

lemma hex_alternative:
  "(concat (map (ms True (Lit 0x3B))
      (ms True (Seq (Lit 0x23) (Seq (Lit 0x78) (Plus (Class ((0x61, 0x66) # digit_class))))) (i, s, cap))) = []) =
   (\<not> (starts_with_ci (js ''#x'') s \<and> run_then_semicolon is_hex_digit (drop 2 s)))"
proof (cases s)
  case Nil
  then show ?thesis by (simp add: starts_with_ci_def js_simps)
next
  case (Cons h r)
  have d: "\<not> is_hex_digit 0x3B" by (simp add: is_hex_digit_def is_digit_def)
  show ?thesis
  proof (cases r)
    case Nil
    then show ?thesis unfolding Cons by (simp add: starts_with_ci_def js_simps)
  next
    case (Cons k r2)
    show ?thesis
      unfolding \<open>s = h # r\<close> Cons
      by (simp add: starts_with_ci_def js_simps canonicalize_eq_lower run_then_lit [OF d class_hex]
            del: concat_eq_Nil_conv)
  qed
qed

lemma entityLookahead_fails:
  "(ms True entityLookahead (i, s, cap) = []) = (\<not> entity_tail_ci s)"
proof -
  have n: "\<forall>c\<in>set (js ''amp''). \<not> (0x41 \<le> c \<and> c \<le> 0x5A)"
      "\<forall>c\<in>set (js ''lt''). \<not> (0x41 \<le> c \<and> c \<le> 0x5A)"
      "\<forall>c\<in>set (js ''gt''). \<not> (0x41 \<le> c \<and> c \<le> 0x5A)"
      "\<forall>c\<in>set (js ''apos''). \<not> (0x41 \<le> c \<and> c \<le> 0x5A)"
      "\<forall>c\<in>set (js ''quot''). \<not> (0x41 \<le> c \<and> c \<le> 0x5A)"
    by (simp_all add: js_simps)
  have e: "js ''amp;'' = js ''amp'' @ [0x3B]" "js ''lt;'' = js ''lt'' @ [0x3B]"
      "js ''gt;'' = js ''gt'' @ [0x3B]" "js ''apos;'' = js ''apos'' @ [0x3B]"
      "js ''quot;'' = js ''quot'' @ [0x3B]"
    by (simp_all add: js_simps)
  show ?thesis
    unfolding entityLookahead_def entity_tail_ci_def e
    by (subst ms.simps(4))
       (simp only: ms.simps(5) map_append concat_append append_is_Nil_conv
          named_alternative [OF n(1)] named_alternative [OF n(2)] named_alternative [OF n(3)]
          named_alternative [OF n(4)] named_alternative [OF n(5)]
          decimal_alternative hex_alternative de_Morgan_disj)
qed


subsection \<open>One match attempt of each pattern\<close>

lemma match_illegal:
  "match_at False illegalCharRegex i s =
     (case s of [] \<Rightarrow> None | c # cs \<Rightarrow> if illegal_control c then Some (cs, None) else None)"
  by (cases s) (simp_all add: match_at_def illegalCharRegex_def class_illegal)

lemma match_amp:
  "match_at True unescapedAmpRegex i s =
     (case s of [] \<Rightarrow> None
      | c # cs \<Rightarrow> if c = 0x26 \<and> \<not> entity_tail_ci cs then Some (cs, None) else None)"
  by (cases s)
     (simp_all add: match_at_def unescapedAmpRegex_def canonicalize_eq_symbol entityLookahead_fails)

lemma match_lt:
  "match_at False unescapedLtRegex i s =
     (case s of [] \<Rightarrow> None
      | c # cs \<Rightarrow> (case cs of [] \<Rightarrow> None
                  | d # rest \<Rightarrow> if c = 0x3C \<and> js_whitespace d then Some (rest, Some [d]) else None))"
  by (cases s; cases "tl s")
     (auto simp add: match_at_def unescapedLtRegex_def class_space)

lemma star_then_end:
  assumes "\<And>j c t x. F (j, c # t, x) = []"
  shows "concat (map F (ms ic (Star (Class rs)) (i, s, cap))) =
         (if \<forall>c\<in>set s. class_matches ic rs c then F (i + length s, [], cap) else [])"
proof (induction s arbitrary: i)
  case Nil
  show ?case by (simp add: ms_Star_Class_Nil)
next
  case (Cons c cs)
  show ?case by (simp add: ms_Star_Class_Cons Cons assms del: concat_eq_Nil_conv)
qed

lemma group_plus_eol:
  "concat (map (ms ic Eol) (ms ic (Group (Plus (Class rs))) (i, s, cap))) =
   (if s \<noteq> [] \<and> (\<forall>c\<in>set s. class_matches ic rs c) then [(i + length s, [], Some s)] else [])"
proof (cases s)
  case Nil
  then show ?thesis by (simp add: Plus_def)
next
  case (Cons c cs)
  let ?g = "\<lambda>(j, t, x). (j, t, Some (take (j - i) (c # cs)))"
  let ?F = "\<lambda>st. ms ic Eol (?g st)"
  show ?thesis
  proof (cases "class_matches ic rs c")
    case False
    then show ?thesis unfolding Cons by (simp add: Plus_def)
  next
    case True
    then have "ms ic (Group (Plus (Class rs))) (i, c # cs, cap) =
               map ?g (ms ic (Star (Class rs)) (Suc i, cs, cap))"
      by (simp add: Plus_def)
    then have "concat (map (ms ic Eol) (ms ic (Group (Plus (Class rs))) (i, c # cs, cap))) =
               concat (map ?F (ms ic (Star (Class rs)) (Suc i, cs, cap)))"
      by (simp add: o_def)
    also have "\<dots> = (if \<forall>c\<in>set cs. class_matches ic rs c then ?F (Suc i + length cs, [], cap) else [])"
      by (rule star_then_end) simp
    also have "\<dots> = (if \<forall>c\<in>set cs. class_matches ic rs c
                     then [(i + length (c # cs), [], Some (c # cs))] else [])"
      by simp
    finally show ?thesis unfolding Cons using True by simp
  qed
qed

lemma match_closing:
  "match_at False malformedClosingRegex i s =
     (case s of [] \<Rightarrow> None
      | a # r \<Rightarrow> (case r of [] \<Rightarrow> None
                 | b # name \<Rightarrow> if a = 0x3C \<and> b = 0x2F \<and> name \<noteq> [] \<and> (\<forall>c\<in>set name. is_name_char c)
                              then Some ([], Some name) else None))"
proof (cases s)
  case Nil
  then show ?thesis by (simp add: match_at_def malformedClosingRegex_def)
next
  case (Cons a r)
  show ?thesis
  proof (cases r)
    case Nil
    then show ?thesis unfolding Cons by (simp add: match_at_def malformedClosingRegex_def)
  next
    case (Cons b name)
    show ?thesis
      unfolding \<open>s = a # r\<close> Cons match_at_def malformedClosingRegex_def
      by (simp add: group_plus_eol class_name del: ms.simps(8))
  qed
qed


subsection \<open>The fixes, without the matcher\<close>

lemma replace_all_no_match:
  "exec_from ic r i s = None \<Longrightarrow> replace_all ic r tm i s = s"
  by (induction s arbitrary: i) (auto split: option.splits)

lemma guarded_replace_all:
  "(if regex_test ic r s then replace_all ic r tm 0 s else s) = replace_all ic r tm 0 s"
  by (cases "exec_from ic r 0 s") (simp_all add: regex_test_def replace_all_no_match)

lemma replace_illegal:
  "replace_all False illegalCharRegex [] i s = filter (\<lambda>c. \<not> illegal_control c) s"
  by (induction s arbitrary: i) (simp_all add: match_illegal)

lemma stripIllegalChars_eq:
  "stripIllegalChars s = filter (\<lambda>c. \<not> illegal_control c) s"
  unfolding stripIllegalChars_def guarded_replace_all by (rule replace_illegal)

lemma replace_amp:
  "replace_all True unescapedAmpRegex [Txt (js ''&amp;'')] i s = escape_amp_with entity_tail_ci s"
  by (induction s arbitrary: i) (simp_all add: match_amp)

lemma fixAmpersands_eq: "fixAmpersands s = escape_amp_with entity_tail_ci s"
  unfolding fixAmpersands_def guarded_replace_all by (rule replace_amp)

lemma space_not_lt: "js_whitespace d \<Longrightarrow> d \<noteq> 0x3C"
  by (auto simp: js_whitespace_def)

lemma replace_lt:
  "replace_all False unescapedLtRegex [Txt (js ''&lt;''), Cap1] i s = escape_bare_lt s"
proof (induction s arbitrary: i rule: length_induct)
  case (1 s)
  show ?case
  proof (cases s)
    case Nil
    then show ?thesis by (simp add: match_lt)
  next
    case (Cons c cs)
    show ?thesis
    proof (cases cs)
      case Nil
      then show ?thesis unfolding Cons by (simp add: match_lt followed_by_space_def)
    next
      case (Cons d rest)
      have a: "replace_all False unescapedLtRegex [Txt (js ''&lt;''), Cap1] k cs = escape_bare_lt cs" for k
        using 1 \<open>s = c # cs\<close> by simp
      have b: "replace_all False unescapedLtRegex [Txt (js ''&lt;''), Cap1] k rest = escape_bare_lt rest" for k
        using 1 \<open>s = c # cs\<close> Cons by simp
      show ?thesis
      proof (cases "c = 0x3C \<and> js_whitespace d")
        case True
        then have "d \<noteq> 0x3C" using space_not_lt by blast
        then have e: "escape_bare_lt cs = d # escape_bare_lt rest" using Cons by simp
        have m: "match_at False unescapedLtRegex i (0x3C # cs) = Some (rest, Some [d])"
          using True Cons by (simp add: match_lt)
        have c: "c = 0x3C" and f: "followed_by_space cs"
          using True Cons by (simp_all add: followed_by_space_def)
        have len: "length rest < Suc (length cs)" using Cons by simp
        show ?thesis unfolding \<open>s = c # cs\<close> c by (simp add: m f e b len)
      next
        case False
        have m: "match_at False unescapedLtRegex i (c # cs) = None"
          using False Cons by (simp add: match_lt)
        have f: "\<not> (c = 0x3C \<and> followed_by_space cs)"
          using False Cons by (simp add: followed_by_space_def)
        show ?thesis unfolding \<open>s = c # cs\<close> using f by (auto simp add: m a)
      qed
    qed
  qed
qed

lemma fixBareLt_eq: "fixBareLt s = escape_bare_lt s"
  unfolding fixBareLt_def guarded_replace_all by (rule replace_lt)

lemma takeWhile_all_append:
  "\<forall>x\<in>set xs. P x \<Longrightarrow> takeWhile P (xs @ ys) = xs @ takeWhile P ys"
  by (induction xs) auto

lemma dropWhile_all_append:
  "\<forall>x\<in>set xs. P x \<Longrightarrow> dropWhile P (xs @ ys) = dropWhile P ys"
  by (induction xs) auto

lemma ends_with_partial_closing_iff:
  "ends_with_partial_closing s \<longleftrightarrow>
     (\<exists>pre name. s = pre @ js ''</'' @ name \<and> name \<noteq> [] \<and> (\<forall>c\<in>set name. is_name_char c))"
proof
  assume e: "ends_with_partial_closing s"
  let ?n = "takeWhile is_name_char (rev s)"
  let ?f = "dropWhile is_name_char (rev s)"
  from e have n: "?n \<noteq> []" and f: "take (Suc (Suc 0)) ?f = [0x2F, 0x3C]"
    by (simp_all add: ends_with_partial_closing_def starts_with_def js_simps Let_def)
  from f obtain rest where fr: "?f = 0x2F # 0x3C # rest"
    by (cases ?f; cases "tl ?f") auto
  have "rev s = ?n @ ?f" by simp
  then have "s = rev ?f @ rev ?n" by (metis rev_append rev_rev_ident)
  then have "s = rev rest @ js ''</'' @ rev ?n" by (simp add: fr js_simps)
  moreover have "rev ?n \<noteq> []" using n by simp
  moreover have "\<forall>c\<in>set (rev ?n). is_name_char c" using set_takeWhileD by fastforce
  ultimately show "\<exists>pre name. s = pre @ js ''</'' @ name \<and> name \<noteq> [] \<and> (\<forall>c\<in>set name. is_name_char c)"
    by blast
next
  assume "\<exists>pre name. s = pre @ js ''</'' @ name \<and> name \<noteq> [] \<and> (\<forall>c\<in>set name. is_name_char c)"
  then obtain pre name where s: "s = pre @ js ''</'' @ name" and n: "name \<noteq> []"
    and a: "\<forall>c\<in>set name. is_name_char c" by blast
  have r: "rev s = rev name @ 0x2F # 0x3C # rev pre" by (simp add: s js_simps)
  have a': "\<forall>c\<in>set (rev name). is_name_char c" using a by simp
  have slash: "\<not> is_name_char 0x2F" by (simp add: is_name_char_def)
  show "ends_with_partial_closing s"
    unfolding ends_with_partial_closing_def r Let_def
    using n slash
    by (simp add: takeWhile_all_append [OF a'] dropWhile_all_append [OF a'] starts_with_def js_simps)
qed

lemma exec_closing_Some:
  "exec_from False malformedClosingRegex i s = Some (pre, t, cap) \<Longrightarrow>
     t = [] \<and> (\<exists>name. cap = Some name \<and> s = pre @ js ''</'' @ name \<and> name \<noteq> [] \<and>
                 (\<forall>c\<in>set name. is_name_char c))"
proof (induction s arbitrary: i pre)
  case Nil
  then show ?case by (simp add: match_closing)
next
  case (Cons c cs)
  show ?case
  proof (cases "match_at False malformedClosingRegex i (c # cs)")
    case None
    with Cons.prems obtain pre' where e: "exec_from False malformedClosingRegex (Suc i) cs = Some (pre', t, cap)"
      and p: "pre = c # pre'"
      by (auto split: option.splits)
    from Cons.IH [OF e] show ?thesis unfolding p by auto
  next
    case (Some m)
    with Cons.prems have m: "m = (t, cap)" and p: "pre = []"
      by (auto split: option.splits)
    from Some show ?thesis
      unfolding m p match_closing
      by (auto simp add: js_simps split: list.splits if_splits)
  qed
qed

lemma exec_closing_None:
  "exec_from False malformedClosingRegex i s = None \<Longrightarrow>
     \<not> (\<exists>pre name. s = pre @ js ''</'' @ name \<and> name \<noteq> [] \<and> (\<forall>c\<in>set name. is_name_char c))"
proof (induction s arbitrary: i)
  case Nil
  show ?case by (simp add: js_simps)
next
  case (Cons c cs)
  from Cons.prems have m: "match_at False malformedClosingRegex i (c # cs) = None"
    and e: "exec_from False malformedClosingRegex (Suc i) cs = None"
    by (auto split: option.splits)
  show ?case
  proof
    assume "\<exists>pre name. c # cs = pre @ js ''</'' @ name \<and> name \<noteq> [] \<and> (\<forall>c\<in>set name. is_name_char c)"
    then obtain pre name where s: "c # cs = pre @ js ''</'' @ name" and n: "name \<noteq> []"
      and a: "\<forall>c\<in>set name. is_name_char c" by blast
    show False
    proof (cases pre)
      case Nil
      with s have "c = 0x3C" "cs = 0x2F # name" by (simp_all add: js_simps)
      with m n a show False by (simp add: match_closing)
    next
      case (Cons p pre')
      with s have "cs = pre' @ js ''</'' @ name" by simp
      with Cons.IH [OF e] n a show False by blast
    qed
  qed
qed

lemma fixTruncatedClosing_eq:
  "fixTruncatedClosing s = (if ends_with_partial_closing s then s @ js ''>'' else s)"
proof (cases "exec_from False malformedClosingRegex 0 s")
  case None
  then have "\<not> ends_with_partial_closing s"
    using exec_closing_None unfolding ends_with_partial_closing_iff by blast
  with None show ?thesis by (simp add: fixTruncatedClosing_def regex_test_def)
next
  case (Some r)
  obtain pre t cap where r: "r = (pre, t, cap)" by (cases r) auto
  from exec_closing_Some [OF Some [unfolded r]] obtain name where
    t: "t = []" and c: "cap = Some name" and s: "s = pre @ js ''</'' @ name"
    and n: "name \<noteq> []" and a: "\<forall>c\<in>set name. is_name_char c" by blast
  have "ends_with_partial_closing s"
    unfolding ends_with_partial_closing_iff using s n a by blast
  then show ?thesis
    using Some unfolding r t c
    by (simp add: fixTruncatedClosing_def regex_test_def replace_first_def s)
qed

subsection \<open>Recognized entity tails\<close>

lemma starts_with_ci_iff:
  "starts_with_ci p s \<longleftrightarrow> (\<exists>t r. s = t @ r \<and> map ascii_lower t = p)"
proof
  assume "starts_with_ci p s"
  then have "s = take (length p) s @ drop (length p) s \<and> map ascii_lower (take (length p) s) = p"
    by (simp add: starts_with_ci_def)
  then show "\<exists>t r. s = t @ r \<and> map ascii_lower t = p" by blast
next
  assume "\<exists>t r. s = t @ r \<and> map ascii_lower t = p"
  then obtain t r where s: "s = t @ r" and p: "map ascii_lower t = p" by blast
  from p have "length p = length t" by auto
  with s p show "starts_with_ci p s" by (simp add: starts_with_ci_def)
qed

lemma run_then_semicolon_iff:
  assumes "\<not> P 0x3B"
  shows "run_then_semicolon P s \<longleftrightarrow> (\<exists>ds r. ds \<noteq> [] \<and> (\<forall>d\<in>set ds. P d) \<and> s = ds @ 0x3B # r)"
proof
  assume r: "run_then_semicolon P s"
  let ?t = "takeWhile P s" and ?d = "dropWhile P s"
  from r have t: "?t \<noteq> []" and d: "take (Suc 0) ?d = [0x3B]"
    by (simp_all add: run_then_semicolon_def starts_with_def js_simps)
  from d obtain r' where "?d = 0x3B # r'" by (cases ?d) auto
  then have "s = ?t @ 0x3B # r'" by (metis takeWhile_dropWhile_id)
  moreover have "\<forall>d\<in>set ?t. P d" using set_takeWhileD by fastforce
  ultimately show "\<exists>ds r. ds \<noteq> [] \<and> (\<forall>d\<in>set ds. P d) \<and> s = ds @ 0x3B # r"
    using t by blast
next
  assume "\<exists>ds r. ds \<noteq> [] \<and> (\<forall>d\<in>set ds. P d) \<and> s = ds @ 0x3B # r"
  then obtain ds r where n: "ds \<noteq> []" and a: "\<forall>d\<in>set ds. P d" and s: "s = ds @ 0x3B # r"
    by blast
  show "run_then_semicolon P s"
    unfolding run_then_semicolon_def s using n assms
    by (simp add: takeWhile_all_append [OF a] dropWhile_all_append [OF a] starts_with_def js_simps)
qed

lemma entity_tail_ci_iff:
  "entity_tail_ci s \<longleftrightarrow> (\<exists>tail rest. s = tail @ rest \<and> recognized_tail tail)"
proof
  assume e: "entity_tail_ci s"
  have d: "\<not> is_digit 0x3B" and h: "\<not> is_hex_digit 0x3B"
    by (simp_all add: is_digit_def is_hex_digit_def)
  from e consider
      (named) p where "p \<in> {js ''amp;'', js ''lt;'', js ''gt;'', js ''apos;'', js ''quot;''}"
        "starts_with_ci p s"
    | (dec) "starts_with (js ''#'') s" "run_then_semicolon is_digit (drop 1 s)"
    | (hex) "starts_with_ci (js ''#x'') s" "run_then_semicolon is_hex_digit (drop 2 s)"
    unfolding entity_tail_ci_def by blast
  then show "\<exists>tail rest. s = tail @ rest \<and> recognized_tail tail"
  proof cases
    case named
    then obtain t r where "s = t @ r" "map ascii_lower t = p"
      unfolding starts_with_ci_iff by blast
    with named(1) show ?thesis unfolding recognized_tail_def by blast
  next
    case dec
    from dec(1) obtain r where s: "s = 0x23 # r"
      by (cases s) (auto simp: starts_with_def js_simps)
    from dec(2) obtain ds r' where "ds \<noteq> []" "\<forall>d\<in>set ds. is_digit d" "r = ds @ 0x3B # r'"
      unfolding s run_then_semicolon_iff [of is_digit, OF d] by auto
    then have "s = (js ''#'' @ ds @ js '';'') @ r'" "recognized_tail (js ''#'' @ ds @ js '';'')"
      unfolding s recognized_tail_def by (auto simp: js_simps)
    then show ?thesis by blast
  next
    case hex
    from hex(1) obtain x r where s: "s = 0x23 # x # r" and x: "ascii_lower x = 0x78"
      by (cases s; cases "tl s") (auto simp: starts_with_ci_def js_simps ascii_lower_def split: if_splits)
    from hex(2) obtain hs r' where "hs \<noteq> []" "\<forall>d\<in>set hs. is_hex_digit d" "r = hs @ 0x3B # r'"
      unfolding s run_then_semicolon_iff [of is_hex_digit, OF h] by auto
    then have "s = (0x23 # x # hs @ js '';'') @ r'" "recognized_tail (0x23 # x # hs @ js '';'')"
      unfolding s recognized_tail_def using x by (auto simp: js_simps)
    then show ?thesis by blast
  qed
next
  assume "\<exists>tail rest. s = tail @ rest \<and> recognized_tail tail"
  then obtain tail rest where s: "s = tail @ rest" and r: "recognized_tail tail" by blast
  have d: "\<not> is_digit 0x3B" and h: "\<not> is_hex_digit 0x3B"
    by (simp_all add: is_digit_def is_hex_digit_def)
  from r [unfolded recognized_tail_def] show "entity_tail_ci s"
  proof (elim disjE exE conjE)
    assume "map ascii_lower tail \<in> {js ''amp;'', js ''lt;'', js ''gt;'', js ''apos;'', js ''quot;''}"
    moreover have "starts_with_ci (map ascii_lower tail) s"
      unfolding starts_with_ci_iff using s by blast
    ultimately have "starts_with_ci (js ''amp;'') s \<or> starts_with_ci (js ''lt;'') s \<or>
      starts_with_ci (js ''gt;'') s \<or> starts_with_ci (js ''apos;'') s \<or>
      starts_with_ci (js ''quot;'') s"
      by auto
    then show ?thesis unfolding entity_tail_ci_def by blast
  next
    fix ds
    assume dec: "ds \<noteq> []" "\<forall>d\<in>set ds. is_digit d" "tail = js ''#'' @ ds @ js '';''"
    have "starts_with (js ''#'') s" unfolding s dec(3) by (simp add: starts_with_def js_simps)
    moreover have "\<exists>es r. es \<noteq> [] \<and> (\<forall>d\<in>set es. is_digit d) \<and> drop 1 s = es @ 0x3B # r"
      using dec(1,2) unfolding s dec(3) by (intro exI [of _ ds] exI [of _ rest]) (simp add: js_simps)
    then have "run_then_semicolon is_digit (drop 1 s)"
      unfolding run_then_semicolon_iff [of is_digit, OF d] .
    ultimately show ?thesis unfolding entity_tail_ci_def by blast
  next
    fix x hs
    assume hex: "ascii_lower x = 0x78" "hs \<noteq> []" "\<forall>h\<in>set hs. is_hex_digit h"
        "tail = 0x23 # x # hs @ js '';''"
    have "starts_with_ci (js ''#x'') s"
      unfolding s hex(4) using hex(1) by (simp add: starts_with_ci_def js_simps ascii_lower_def)
    moreover have "\<exists>es r. es \<noteq> [] \<and> (\<forall>d\<in>set es. is_hex_digit d) \<and> drop 2 s = es @ 0x3B # r"
      using hex(2,3) unfolding s hex(4) by (intro exI [of _ hs] exI [of _ rest]) (simp add: js_simps)
    then have "run_then_semicolon is_hex_digit (drop 2 s)"
      unfolding run_then_semicolon_iff [of is_hex_digit, OF h] .
    ultimately show ?thesis unfolding entity_tail_ci_def by blast
  qed
qed

lemma recognized_tail_chars:
  assumes "recognized_tail t"
  shows "0x26 \<notin> set t \<and> 0x3C \<notin> set t"
proof -
  have low: "ascii_lower 0x26 = 0x26" "ascii_lower 0x3C = 0x3C"
    by (simp_all add: ascii_lower_def)
  from assms [unfolded recognized_tail_def] show ?thesis
  proof (elim disjE exE conjE)
    assume p: "map ascii_lower t \<in> {js ''amp;'', js ''lt;'', js ''gt;'', js ''apos;'', js ''quot;''}"
    have "0x26 \<notin> set (map ascii_lower t) \<and> 0x3C \<notin> set (map ascii_lower t)"
      using p by (auto simp: js_simps)
    moreover have "c \<in> set t \<Longrightarrow> ascii_lower c \<in> set (map ascii_lower t)" for c by simp
    ultimately show ?thesis using low by metis
  next
    fix ds
    assume "\<forall>d\<in>set ds. is_digit d" "t = js ''#'' @ ds @ js '';''"
    then show ?thesis by (auto simp: js_simps is_digit_def)
  next
    fix x hs
    assume "ascii_lower x = 0x78" "\<forall>h\<in>set hs. is_hex_digit h" "t = 0x23 # x # hs @ js '';''"
    then show ?thesis by (auto simp: js_simps is_hex_digit_def is_digit_def ascii_lower_def)
  qed
qed

lemma entity_tail_ci_append: "entity_tail_ci s \<Longrightarrow> entity_tail_ci (s @ t)"
  unfolding entity_tail_ci_iff by (metis append.assoc)

subsection \<open>What each fix keeps and establishes\<close>

lemma escape_amp_copy:
  "0x26 \<notin> set t \<Longrightarrow> escape_amp_with R (t @ r) = t @ escape_amp_with R r"
  by (induction t) auto

lemma escape_lt_copy:
  "0x3C \<notin> set t \<Longrightarrow> escape_bare_lt (t @ r) = t @ escape_bare_lt r"
  by (induction t) auto

lemma entity_tail_escape_amp:
  assumes "entity_tail_ci s" shows "entity_tail_ci (escape_amp_with R s)"
proof -
  from assms obtain t r where s: "s = t @ r" and t: "recognized_tail t"
    unfolding entity_tail_ci_iff by blast
  have "escape_amp_with R s = t @ escape_amp_with R r"
    unfolding s using recognized_tail_chars [OF t] by (simp add: escape_amp_copy)
  with t show ?thesis unfolding entity_tail_ci_iff by blast
qed

lemma entity_tail_escape_lt:
  assumes "entity_tail_ci s" shows "entity_tail_ci (escape_bare_lt s)"
proof -
  from assms obtain t r where s: "s = t @ r" and t: "recognized_tail t"
    unfolding entity_tail_ci_iff by blast
  have "escape_bare_lt s = t @ escape_bare_lt r"
    unfolding s using recognized_tail_chars [OF t] by (simp add: escape_lt_copy)
  with t show ?thesis unfolding entity_tail_ci_iff by blast
qed

lemma entity_tail_amp: "entity_tail_ci (js ''amp;'' @ r)"
  by (simp add: entity_tail_ci_def starts_with_ci_def js_simps ascii_lower_def)

lemma entity_tail_lt: "entity_tail_ci (js ''lt;'' @ r)"
  by (simp add: entity_tail_ci_def starts_with_ci_def js_simps ascii_lower_def)

lemma all_amp_escaped_escape_amp: "all_amp_escaped (escape_amp_with entity_tail_ci s)"
proof (induction s)
  case Nil
  show ?case by simp
next
  case (Cons c cs)
  have "all_amp_escaped (js ''&amp;'' @ r) = all_amp_escaped r" for r
    using entity_tail_amp [of r] by (simp add: js_simps)
  with Cons show ?case by (auto intro: entity_tail_escape_amp)
qed

lemma escape_amp_id: "all_amp_escaped s \<Longrightarrow> escape_amp_with entity_tail_ci s = s"
  by (induction s) auto

lemma all_amp_escaped_escape_lt: "all_amp_escaped s \<Longrightarrow> all_amp_escaped (escape_bare_lt s)"
proof (induction s)
  case Nil
  show ?case by simp
next
  case (Cons c cs)
  have "all_amp_escaped (js ''&lt;'' @ r) = all_amp_escaped r" for r
    using entity_tail_lt [of r] by (simp add: js_simps)
  with Cons show ?case by (auto intro: entity_tail_escape_lt)
qed

lemma all_amp_escaped_append:
  "all_amp_escaped s \<Longrightarrow> all_amp_escaped t \<Longrightarrow> all_amp_escaped (s @ t)"
  by (induction s) (auto intro: entity_tail_ci_append)

lemma followed_by_space_escape_lt:
  "followed_by_space (escape_bare_lt s) = followed_by_space s"
proof (cases s)
  case Nil
  then show ?thesis by simp
next
  case (Cons d r)
  have "\<not> js_whitespace 0x26" by (simp add: js_whitespace_def)
  then show ?thesis
    unfolding Cons using space_not_lt [of d]
    by (auto simp add: followed_by_space_def js_simps)
qed

lemma no_bare_lt_escape_lt: "no_bare_lt (escape_bare_lt s)"
proof (induction s)
  case Nil
  show ?case by simp
next
  case (Cons c cs)
  have "no_bare_lt (js ''&lt;'' @ r) = no_bare_lt r" for r
    by (simp add: js_simps)
  with Cons show ?case by (simp add: followed_by_space_escape_lt)
qed

lemma escape_lt_id: "no_bare_lt s \<Longrightarrow> escape_bare_lt s = s"
  by (induction s) auto

lemma no_bare_lt_snoc_gt: "no_bare_lt s \<Longrightarrow> no_bare_lt (s @ js ''>'')"
proof (induction s)
  case Nil
  show ?case by (simp add: js_simps followed_by_space_def js_whitespace_def)
next
  case (Cons c cs)
  have "followed_by_space (cs @ js ''>'') = followed_by_space cs"
    by (cases cs) (simp_all add: followed_by_space_def js_simps js_whitespace_def)
  with Cons show ?case by simp
qed

lemma not_partial_closing_snoc_gt: "\<not> ends_with_partial_closing (s @ js ''>'')"
  by (simp add: ends_with_partial_closing_def js_simps is_name_char_def)

lemma set_escape_amp: "set (escape_amp_with R s) \<subseteq> set s \<union> set (js ''amp;'')"
  by (induction s) (auto simp: js_simps)

lemma set_escape_lt: "set (escape_bare_lt s) \<subseteq> set s \<union> set (js ''&lt;'')"
  by (induction s) (auto simp: js_simps)

subsection \<open>The whole pipeline\<close>

lemma fixedContent_heuristicRepair:
  "fixedContent (heuristicRepair P x) =
     fixTruncatedClosing (fixBareLt (fixAmpersands (stripIllegalChars x)))"
  by (simp add: heuristicRepair_def Let_def)

lemma amp_not_illegal:
  "\<forall>c\<in>set (js ''amp;''). \<not> illegal_control c" "\<forall>c\<in>set (js ''&lt;''). \<not> illegal_control c"
  "\<forall>c\<in>set (js ''>''). \<not> illegal_control c"
  by (simp_all add: js_simps illegal_control_def)

lemma legal_after_fixes:
  "\<forall>c\<in>set (fixTruncatedClosing (fixBareLt (fixAmpersands (stripIllegalChars x)))). \<not> illegal_control c"
proof -
  let ?a = "stripIllegalChars x"
  let ?b = "fixAmpersands ?a"
  let ?c = "fixBareLt ?b"
  have a: "\<forall>c\<in>set ?a. \<not> illegal_control c" by (simp add: stripIllegalChars_eq)
  have b: "\<forall>c\<in>set ?b. \<not> illegal_control c"
    using a set_escape_amp [of entity_tail_ci ?a] amp_not_illegal(1)
    unfolding fixAmpersands_eq by blast
  have c: "\<forall>c\<in>set ?c. \<not> illegal_control c"
    using b set_escape_lt [of ?b] amp_not_illegal(2)
    unfolding fixBareLt_eq by blast
  show ?thesis
    using c amp_not_illegal(3) unfolding fixTruncatedClosing_eq by auto
qed

lemma escaped_after_fixes:
  "all_amp_escaped (fixTruncatedClosing (fixBareLt (fixAmpersands (stripIllegalChars x))))"
proof -
  let ?a = "stripIllegalChars x"
  let ?b = "fixAmpersands ?a"
  let ?c = "fixBareLt ?b"
  have b: "all_amp_escaped ?b" unfolding fixAmpersands_eq by (rule all_amp_escaped_escape_amp)
  have c: "all_amp_escaped ?c" unfolding fixBareLt_eq using b by (rule all_amp_escaped_escape_lt)
  have "all_amp_escaped (js ''>'')" by (simp add: js_simps)
  with c show ?thesis
    unfolding fixTruncatedClosing_eq by (simp add: all_amp_escaped_append)
qed

lemma no_bare_lt_after_fixes:
  "no_bare_lt (fixTruncatedClosing (fixBareLt (fixAmpersands (stripIllegalChars x))))"
  unfolding fixTruncatedClosing_eq fixBareLt_eq
  by (simp add: no_bare_lt_escape_lt no_bare_lt_snoc_gt)

lemma no_partial_closing_after_fixes:
  "\<not> ends_with_partial_closing (fixTruncatedClosing s)"
  unfolding fixTruncatedClosing_eq by (simp add: not_partial_closing_snoc_gt)

lemma strip_id: "\<forall>c\<in>set s. \<not> illegal_control c \<Longrightarrow> stripIllegalChars s = s"
  by (simp add: stripIllegalChars_eq)

lemma fixes_id:
  assumes "\<forall>c\<in>set s. \<not> illegal_control c" "all_amp_escaped s" "no_bare_lt s"
    "\<not> ends_with_partial_closing s"
  shows "fixTruncatedClosing (fixBareLt (fixAmpersands (stripIllegalChars s))) = s"
  using assms
  by (simp add: strip_id fixAmpersands_eq escape_amp_id fixBareLt_eq escape_lt_id
        fixTruncatedClosing_eq)

lemma all_amp_escaped_at:
  "all_amp_escaped s \<Longrightarrow> s = pre @ 0x26 # suf \<Longrightarrow> entity_tail_ci suf"
  by (induction pre arbitrary: s) auto

lemma keep_escape_amp:
  "\<forall>c\<in>set (js ''&amp;''). \<not> K c \<Longrightarrow> filter K (escape_amp_with R s) = filter K s"
  by (induction s) (auto simp: js_simps)

lemma keep_escape_lt:
  "\<forall>c\<in>set (js ''&lt;''). \<not> K c \<Longrightarrow> \<not> K 0x3C \<Longrightarrow> filter K (escape_bare_lt s) = filter K s"
  by (induction s) (auto simp: js_simps)

lemma keep_after_fixes:
  assumes "\<And>c. K c \<Longrightarrow> \<not> illegal_control c" "\<forall>c\<in>set (js ''&amp;lt<>''). \<not> K c"
  shows "filter K (fixTruncatedClosing (fixBareLt (fixAmpersands (stripIllegalChars x)))) = filter K x"
proof -
  have 1: "filter K (stripIllegalChars x) = filter K x"
    unfolding stripIllegalChars_eq filter_filter using assms(1) by (metis (mono_tags, lifting) filter_cong)
  have k: "\<forall>c\<in>set (js ''&amp;''). \<not> K c" "\<forall>c\<in>set (js ''&lt;''). \<not> K c" "\<not> K 0x3C" "\<not> K 0x3E"
    using assms(2) by (simp_all add: js_simps)
  show ?thesis
    unfolding fixTruncatedClosing_eq fixBareLt_eq fixAmpersands_eq
    using 1 k by (simp add: keep_escape_amp keep_escape_lt js_simps)
qed






section \<open>The claims\<close>

lemmas text_eval =
  js_simps stripIllegalChars_eq fixAmpersands_eq fixBareLt_eq fixTruncatedClosing_eq
  illegal_control_def entity_tail_ci_def starts_with_ci_def starts_with_def
  run_then_semicolon_def is_digit_def is_hex_digit_def ascii_lower_def followed_by_space_def
  js_whitespace_def ends_with_partial_closing_def is_name_char_def Let_def

text \<open>
  Claim C1, as stated: \<open>heuristicRepair\<close> replaces with \<open>&amp;\<close> every \<open>&\<close> that does
  not start \<open>&amp;\<close>, \<open>&lt;\<close>, \<open>&gt;\<close>, \<open>&apos;\<close>, \<open>&quot;\<close>, \<open>&#\<close> digits \<open>;\<close> or
  \<open>&#x\<close> hexadecimal digits \<open>;\<close>, where only the hexadecimal digits may be in either
  case.  The \<open>i\<close> flag of the pattern covers all of it: the \<open>&\<close> of \<open>&AMP;\<close> is not
  such a start, and the code leaves it, where the claim has \<open>&amp;AMP;\<close>.
\<close>

theorem C1_counterexample:
  "fixAmpersands (js ''&AMP;'') = js ''&AMP;'' \<and>
   escape_amp_with entity_tail_strict (js ''&AMP;'') = js ''&amp;AMP;'' \<and>
   fixedContent (heuristicRepair parseFragment (js ''&AMP;'')) = js ''&AMP;''"
  by (simp add: fixedContent_heuristicRepair text_eval entity_tail_strict_def)

text \<open>
  Claim C1, amended: the second fix of \<open>heuristicRepair\<close>, applied to the text that the
  first fix leaves, replaces with \<open>&amp;\<close> every \<open>&\<close> that does not start a recognized
  entity reference and leaves every other character; the recognized tails \<open>amp;\<close>,
  \<open>lt;\<close>, \<open>gt;\<close>, \<open>apos;\<close>, \<open>quot;\<close>, \<open>#\<close> digits \<open>;\<close> and \<open>#x\<close> hexadecimal digits
  \<open>;\<close> are matched without regard to case, names and \<open>x\<close> included.  So
  \<open>"A & B"\<close> becomes \<open>"A &amp; B"\<close>, \<open>"A &amp; B"\<close> stays, and \<open>"<a>&</a>"\<close> becomes
  \<open>"<a>&amp;</a>"\<close>.
\<close>

theorem C1_ampersand_escaping:
  "fixAmpersands s = escape_amp_with entity_tail_ci s \<and>
   fixedContent (heuristicRepair P x) =
     fixTruncatedClosing (fixBareLt (escape_amp_with entity_tail_ci (stripIllegalChars x))) \<and>
   fixedContent (heuristicRepair P (js ''A & B'')) = js ''A &amp; B'' \<and>
   fixedContent (heuristicRepair P (js ''A &amp; B'')) = js ''A &amp; B'' \<and>
   fixedContent (heuristicRepair P (js ''<a>&</a>'')) = js ''<a>&amp;</a>''"
proof -
  have "fixedContent (heuristicRepair P (js ''A & B'')) = js ''A &amp; B''"
    by (simp add: fixedContent_heuristicRepair text_eval)
  moreover have "fixedContent (heuristicRepair P (js ''A &amp; B'')) = js ''A &amp; B''"
    by (simp add: fixedContent_heuristicRepair text_eval)
  moreover have "fixedContent (heuristicRepair P (js ''<a>&</a>'')) = js ''<a>&amp;</a>''"
    by (simp add: fixedContent_heuristicRepair text_eval)
  ultimately show ?thesis
    by (simp add: fixedContent_heuristicRepair fixAmpersands_eq)
qed

text \<open>
  Claim C2, as stated: every well-formed input comes back unchanged, with
  \<open>wasModified = false\<close>.  The fixes work on the text and know nothing of CDATA
  sections: \<open><a><![CDATA[A & B]]></a>\<close> is well-formed, and its \<open>&\<close> is escaped.
\<close>

theorem C2_counterexample:
  "isValid (validateXML parseFragment (js ''<a><![CDATA[A & B]]></a>'')) \<and>
   wasModified (heuristicRepair parseFragment (js ''<a><![CDATA[A & B]]></a>'')) \<and>
   fixedContent (heuristicRepair parseFragment (js ''<a><![CDATA[A & B]]></a>'')) =
     js ''<a><![CDATA[A &amp; B]]></a>''"
  by code_simp

text \<open>
  Claim C2, amended: for every input in which none of the four patterns occurs (no illegal
  control character, no \<open>&\<close> that does not start a recognized entity reference, no
  \<open><\<close> followed by whitespace, no partial closing tag at the end), \<open>heuristicRepair\<close>
  returns \<open>fixedContent\<close> equal to the input and \<open>wasModified = false\<close>, with the
  \<open>isValid\<close> and \<open>errors\<close> of \<open>validateXML\<close> on the input: \<open>true\<close> and \<open>[]\<close> when the
  parsed document has no \<open>parsererror\<close> element.
\<close>

theorem C2_unchanged_without_patterns:
  assumes "\<forall>c\<in>set x. \<not> illegal_control c" and "all_amp_escaped x" and "no_bare_lt x"
    and "\<not> ends_with_partial_closing x"
  shows "fixedContent (heuristicRepair P x) = x \<and>
         \<not> wasModified (heuristicRepair P x) \<and>
         isValid (heuristicRepair P x) = isValid (validateXML P x) \<and>
         errors (heuristicRepair P x) = errors (validateXML P x) \<and>
         (querySelector (js ''parsererror'') (P x) = None \<longrightarrow>
            isValid (heuristicRepair P x) \<and> errors (heuristicRepair P x) = [])"
proof -
  have "fixTruncatedClosing (fixBareLt (fixAmpersands (stripIllegalChars x))) = x"
    using assms by (rule fixes_id)
  then show ?thesis by (simp add: heuristicRepair_def Let_def validateXML_def)
qed

theorem C2_unchanged_without_patterns_witness:
  "filter illegal_control (js ''<a>b</a>'') = [] \<and> all_amp_escaped (js ''<a>b</a>'') \<and>
   no_bare_lt (js ''<a>b</a>'') \<and> \<not> ends_with_partial_closing (js ''<a>b</a>'') \<and>
   querySelector (js ''parsererror'') (parseFragment (js ''<a>b</a>'')) = None \<and>
   fixedContent (heuristicRepair parseFragment (js ''<a>b</a>'')) = js ''<a>b</a>'' \<and>
   \<not> wasModified (heuristicRepair parseFragment (js ''<a>b</a>'')) \<and>
   isValid (heuristicRepair parseFragment (js ''<a>b</a>'')) \<and>
   errors (heuristicRepair parseFragment (js ''<a>b</a>'')) = []"
proof -
  have 0: "filter illegal_control (js ''<a>b</a>'') = []" by code_simp
  then have 1: "\<forall>c\<in>set (js ''<a>b</a>''). \<not> illegal_control c"
    by (simp add: filter_empty_conv)
  have 2: "all_amp_escaped (js ''<a>b</a>'')" by code_simp
  have 3: "no_bare_lt (js ''<a>b</a>'')" by code_simp
  have 4: "\<not> ends_with_partial_closing (js ''<a>b</a>'')" by code_simp
  have 5: "querySelector (js ''parsererror'') (parseFragment (js ''<a>b</a>'')) = None"
    by code_simp
  from C2_unchanged_without_patterns [OF 1 2 3 4, of parseFragment] 0 2 3 4 5
  show ?thesis by blast
qed

text \<open>
  Claim C3: \<open>heuristicRepair\<close> is idempotent on its output.  Running it on the
  \<open>fixedContent\<close> of a first run returns that text again, also where the first run
  appended a \<open>>\<close>.
\<close>

theorem C3_idempotent:
  "fixedContent (heuristicRepair P (fixedContent (heuristicRepair P x))) =
     fixedContent (heuristicRepair P x)"
  unfolding fixedContent_heuristicRepair
  by (rule fixes_id)
     (rule legal_after_fixes escaped_after_fixes no_bare_lt_after_fixes
        no_partial_closing_after_fixes)+

text \<open>
  Claim C4: \<open>validateXML\<close> returns a result for every input (the model is a total
  function: no call of it throws); \<open>isValid\<close> holds exactly when \<open>errors\<close> is empty;
  and when the parsed document has a \<open>parsererror\<close> element, \<open>errors\<close> is exactly one
  entry, that element's text, or \<open>"Unknown XML parsing error"\<close> when the text is
  empty, so the entry is never empty either.
\<close>

theorem C4_validateXML:
  "isValid (validateXML P x) = (errors (validateXML P x) = []) \<and>
   (querySelector (js ''parsererror'') (P x) = None \<longrightarrow>
      validateXML P x = \<lparr>isValid = True, errors = []\<rparr>) \<and>
   (\<forall>e. querySelector (js ''parsererror'') (P x) = Some e \<longrightarrow>
      \<not> isValid (validateXML P x) \<and>
      errors (validateXML P x) =
        [if textContent e = [] then js ''Unknown XML parsing error'' else textContent e]) \<and>
   (\<not> isValid (validateXML P x) \<longrightarrow>
      (\<exists>m. errors (validateXML P x) = [m] \<and> m \<noteq> []))"
proof -
  have "js ''Unknown XML parsing error'' \<noteq> []" by (simp add: js_simps)
  then show ?thesis
    by (cases "querySelector (js ''parsererror'') (P x)") (simp_all add: validateXML_def)
qed

theorem C4_validateXML_witness:
  "querySelector (js ''parsererror'') (parseFragment (js ''<a>'')) =
     Some (Element (js ''parsererror'') [TextNode (js ''XML parsing error'')]) \<and>
   \<not> isValid (validateXML parseFragment (js ''<a>'')) \<and>
   errors (validateXML parseFragment (js ''<a>'')) = [js ''XML parsing error''] \<and>
   querySelector (js ''parsererror'') (parseFragment (js ''<parsererror/>'')) =
     Some (Element (js ''parsererror'') []) \<and>
   errors (validateXML parseFragment (js ''<parsererror/>'')) = [js ''Unknown XML parsing error''] \<and>
   querySelector (js ''parsererror'') (parseFragment (js ''<a>b</a>'')) = None \<and>
   validateXML parseFragment (js ''<a>b</a>'') = \<lparr>isValid = True, errors = []\<rparr>"
proof -
  have 1: "querySelector (js ''parsererror'') (parseFragment (js ''<a>'')) =
     Some (Element (js ''parsererror'') [TextNode (js ''XML parsing error'')])"
    by code_simp
  have 2: "querySelector (js ''parsererror'') (parseFragment (js ''<parsererror/>'')) =
     Some (Element (js ''parsererror'') [])"
    by code_simp
  have 3: "querySelector (js ''parsererror'') (parseFragment (js ''<a>b</a>'')) = None"
    by code_simp
  have t: "js ''XML parsing error'' \<noteq> []" by (simp add: js_simps)
  from C4_validateXML [of parseFragment "js ''<a>''"] 1 t
  have a: "\<not> isValid (validateXML parseFragment (js ''<a>'')) \<and>
           errors (validateXML parseFragment (js ''<a>'')) = [js ''XML parsing error'']"
    by simp
  from C4_validateXML [of parseFragment "js ''<parsererror/>''"] 2
  have b: "errors (validateXML parseFragment (js ''<parsererror/>'')) = [js ''Unknown XML parsing error'']"
    by simp
  from C4_validateXML [of parseFragment "js ''<a>b</a>''"] 3
  have c: "validateXML parseFragment (js ''<a>b</a>'') = \<lparr>isValid = True, errors = []\<rparr>"
    by simp
  from 1 2 3 a b c show ?thesis by blast
qed

text \<open>
  Claim C5: the result of \<open>heuristicRepair\<close> has \<open>wasModified = true\<close> exactly when its
  \<open>fixedContent\<close> differs from the input, and every result that \<open>repairWithGemini\<close>
  returns has \<open>wasModified = true\<close>.
\<close>

theorem C5_wasModified:
  "wasModified (heuristicRepair P x) = (fixedContent (heuristicRepair P x) \<noteq> x) \<and>
   (\<forall>r. repairWithGemini P apiKey generateContent x = Inr r \<longrightarrow> wasModified r)"
  by (auto simp add: heuristicRepair_def repairWithGemini_def Let_def
        split: option.splits generation.splits if_splits)

theorem C5_wasModified_witness:
  "repairWithGemini parseFragment (Some (js ''key'')) fixedAnswer (js ''<a>b</a>'') =
     Inr \<lparr>isValid = True, errors = [], fixedContent = js ''<a>b</a>'', wasModified = True\<rparr> \<and>
   wasModified \<lparr>isValid = True, errors = [], fixedContent = js ''<a>b</a>'', wasModified = True\<rparr> \<and>
   \<not> wasModified (heuristicRepair parseFragment (js ''<a>b</a>'')) \<and>
   wasModified (heuristicRepair parseFragment (js ''A & B''))"
proof -
  have 1: "repairWithGemini parseFragment (Some (js ''key'')) fixedAnswer (js ''<a>b</a>'') =
     Inr \<lparr>isValid = True, errors = [], fixedContent = js ''<a>b</a>'', wasModified = True\<rparr>"
    by code_simp
  have 2: "fixedContent (heuristicRepair parseFragment (js ''<a>b</a>'')) = js ''<a>b</a>''"
    by code_simp
  have 3: "fixedContent (heuristicRepair parseFragment (js ''A & B'')) \<noteq> js ''A & B''"
    by code_simp
  from C5_wasModified [of parseFragment "js ''<a>b</a>''" "Some (js ''key'')" fixedAnswer] 1 2
  have a: "wasModified \<lparr>isValid = True, errors = [], fixedContent = js ''<a>b</a>'', wasModified = True\<rparr> \<and>
           \<not> wasModified (heuristicRepair parseFragment (js ''<a>b</a>''))"
    by simp
  from C5_wasModified [of parseFragment "js ''A & B''"] 3
  have b: "wasModified (heuristicRepair parseFragment (js ''A & B''))" by simp
  from 1 a b show ?thesis by blast
qed

text \<open>
  Claim C6: no character of \<open>fixedContent\<close> is in the ranges 0x00 to 0x08, 0x0B, 0x0C,
  0x0E to 0x1F: the first fix removes exactly those and the later fixes add none.  Tab,
  line feed and carriage return are preserved: they occur in \<open>fixedContent\<close> as often
  and in the same order as in the input.  An input with 0x01 and 0x0A loses the 0x01 and
  keeps the 0x0A.
\<close>

theorem C6_control_characters:
  "(\<forall>c\<in>set (fixedContent (heuristicRepair P x)). \<not> illegal_control c) \<and>
   stripIllegalChars x = filter (\<lambda>c. \<not> illegal_control c) x \<and>
   filter (\<lambda>c. c = 0x09 \<or> c = 0x0A \<or> c = 0x0D) (fixedContent (heuristicRepair P x)) =
     filter (\<lambda>c. c = 0x09 \<or> c = 0x0A \<or> c = 0x0D) x \<and>
   fixedContent (heuristicRepair P [0x41, 0x01, 0x0A, 0x42]) = [0x41, 0x0A, 0x42]"
proof -
  have k1: "\<And>c::cu. c = 0x09 \<or> c = 0x0A \<or> c = 0x0D \<Longrightarrow> \<not> illegal_control c"
    by (auto simp: illegal_control_def)
  have k2: "\<forall>c\<in>set (js ''&amp;lt<>''). \<not> (c = 0x09 \<or> c = 0x0A \<or> c = 0x0D)"
    by (simp add: js_simps)
  have a: "\<forall>c\<in>set (fixedContent (heuristicRepair P x)). \<not> illegal_control c"
    unfolding fixedContent_heuristicRepair by (rule legal_after_fixes)
  have b: "stripIllegalChars x = filter (\<lambda>c. \<not> illegal_control c) x"
    by (rule stripIllegalChars_eq)
  have c: "filter (\<lambda>c. c = 0x09 \<or> c = 0x0A \<or> c = 0x0D) (fixedContent (heuristicRepair P x)) =
           filter (\<lambda>c. c = 0x09 \<or> c = 0x0A \<or> c = 0x0D) x"
    unfolding fixedContent_heuristicRepair using k1 k2 by (rule keep_after_fixes)
  have d: "fixedContent (heuristicRepair P [0x41, 0x01, 0x0A, 0x42]) = [0x41, 0x0A, 0x42]"
    by (simp add: fixedContent_heuristicRepair text_eval)
  from a b c d show ?thesis by (intro conjI)
qed

theorem C6_control_characters_witness:
  "fixedContent (heuristicRepair parseFragment [0x41, 0x01, 0x0A, 0x42]) = [0x41, 0x0A, 0x42] \<and>
   0x0A \<in> set (fixedContent (heuristicRepair parseFragment [0x41, 0x01, 0x0A, 0x42])) \<and>
   \<not> illegal_control 0x0A \<and> illegal_control 0x01 \<and>
   0x01 \<notin> set (fixedContent (heuristicRepair parseFragment [0x41, 0x01, 0x0A, 0x42]))"
proof -
  from C6_control_characters [of parseFragment "[0x41, 0x01, 0x0A, 0x42]"]
  have a: "\<forall>c\<in>set (fixedContent (heuristicRepair parseFragment [0x41, 0x01, 0x0A, 0x42])). \<not> illegal_control c"
    and b: "fixedContent (heuristicRepair parseFragment [0x41, 0x01, 0x0A, 0x42]) = [0x41, 0x0A, 0x42]"
    by blast+
  have c: "illegal_control 0x01" by (simp add: illegal_control_def)
  from a b c show ?thesis by auto
qed

text \<open>
  Claim C7, as stated: for every input, \<open>heuristicRepair\<close> escapes every \<open><\<close> that
  is immediately followed by a whitespace character and leaves every \<open><\<close> followed by
  anything else.  The fix runs third, on the text that the first fix has stripped: in
  \<open><\<close> 0x01 space the \<open><\<close> is followed by 0x01, which is no whitespace, and is
  escaped all the same; in \<open><\<close> 0x0B it is followed by a whitespace character of
  \<open>\s\<close> and is left, while the 0x0B is removed.
\<close>

theorem C7_counterexample:
  "\<not> js_whitespace 0x01 \<and>
   fixedContent (heuristicRepair parseFragment [0x3C, 0x01, 0x20]) = js ''&lt; '' \<and>
   js_whitespace 0x0B \<and>
   fixedContent (heuristicRepair parseFragment [0x3C, 0x0B]) = js ''<''"
  by code_simp

text \<open>
  Claim C7, amended: the third fix of \<open>heuristicRepair\<close>, applied to the text that the
  first two leave (illegal control characters removed, ampersands escaped), replaces
  every \<open><\<close> that is immediately followed there by a whitespace character with
  \<open>&lt;\<close>, keeps that whitespace character and leaves every \<open><\<close> followed by
  anything else, or by nothing, as it is.  So \<open>"5 < 10"\<close> becomes \<open>"5 &lt; 10"\<close> and
  \<open>"<trans-unit>"\<close> stays.
\<close>

theorem C7_bare_less_than:
  "fixBareLt s = escape_bare_lt s \<and>
   fixedContent (heuristicRepair P x) =
     fixTruncatedClosing (escape_bare_lt (fixAmpersands (stripIllegalChars x))) \<and>
   fixedContent (heuristicRepair P (js ''5 < 10'')) = js ''5 &lt; 10'' \<and>
   fixedContent (heuristicRepair P (js ''<trans-unit>'')) = js ''<trans-unit>''"
proof -
  have a: "fixedContent (heuristicRepair P (js ''5 < 10'')) = js ''5 &lt; 10''"
    by (simp add: fixedContent_heuristicRepair text_eval)
  have b: "fixedContent (heuristicRepair P (js ''<trans-unit>'')) = js ''<trans-unit>''"
    by (simp add: fixedContent_heuristicRepair text_eval)
  have c: "fixedContent (heuristicRepair P x) =
     fixTruncatedClosing (escape_bare_lt (fixAmpersands (stripIllegalChars x)))"
    by (simp add: fixedContent_heuristicRepair fixBareLt_eq)
  from a b c fixBareLt_eq [of s] show ?thesis by (intro conjI)
qed




text \<open>
  Claim C9: without an API credential (\<open>process.env.API_KEY\<close> undefined or empty)
  \<open>repairWithGemini\<close> fails with an error and returns no result; and every result it
  returns has \<open>wasModified = true\<close> and the \<open>isValid\<close> and \<open>errors\<close> of \<open>validateXML\<close>
  on the \<open>fixedContent\<close> it returns.
\<close>

theorem C9_repairWithGemini:
  "(apiKey = None \<or> apiKey = Some [] \<longrightarrow>
      repairWithGemini P apiKey generateContent x =
        Inl (js ''API Key not found. Please select a key.'')) \<and>
   (\<forall>r. repairWithGemini P apiKey generateContent x = Inr r \<longrightarrow>
      wasModified r \<and>
      isValid r = isValid (validateXML P (fixedContent r)) \<and>
      errors r = errors (validateXML P (fixedContent r)))"
  by (auto simp add: repairWithGemini_def Let_def
        split: option.splits generation.splits if_splits)

theorem C9_repairWithGemini_witness:
  "repairWithGemini parseFragment None fixedAnswer (js ''<a>b</a'') =
     Inl (js ''API Key not found. Please select a key.'') \<and>
   repairWithGemini parseFragment (Some []) fixedAnswer (js ''<a>b</a'') =
     Inl (js ''API Key not found. Please select a key.'') \<and>
   repairWithGemini parseFragment (Some (js ''key'')) fixedAnswer (js ''<a>b</a'') =
     Inr \<lparr>isValid = True, errors = [], fixedContent = js ''<a>b</a>'', wasModified = True\<rparr> \<and>
   validateXML parseFragment (js ''<a>b</a>'') = \<lparr>isValid = True, errors = []\<rparr>"
proof -
  have 1: "repairWithGemini parseFragment (Some (js ''key'')) fixedAnswer (js ''<a>b</a'') =
     Inr \<lparr>isValid = True, errors = [], fixedContent = js ''<a>b</a>'', wasModified = True\<rparr>"
    by code_simp
  from C9_repairWithGemini [of None parseFragment fixedAnswer "js ''<a>b</a''"]
  have a: "repairWithGemini parseFragment None fixedAnswer (js ''<a>b</a'') =
     Inl (js ''API Key not found. Please select a key.'')"
    by simp
  from C9_repairWithGemini [of "Some []" parseFragment fixedAnswer "js ''<a>b</a''"]
  have b: "repairWithGemini parseFragment (Some []) fixedAnswer (js ''<a>b</a'') =
     Inl (js ''API Key not found. Please select a key.'')"
    by simp
  from C9_repairWithGemini [of "Some (js ''key'')" parseFragment fixedAnswer "js ''<a>b</a''"] 1
  have "isValid (validateXML parseFragment (js ''<a>b</a>'')) = True \<and>
        errors (validateXML parseFragment (js ''<a>b</a>'')) = []"
    by simp
  then have c: "validateXML parseFragment (js ''<a>b</a>'') = \<lparr>isValid = True, errors = []\<rparr>"
    by (cases "validateXML parseFragment (js ''<a>b</a>'')") simp
  from 1 a b c show ?thesis by blast
qed

text \<open>
  Claim C10: every \<open>&\<close> of \<open>fixedContent\<close> is immediately followed by a recognized
  entity tail (\<open>amp;\<close>, \<open>lt;\<close>, \<open>gt;\<close>, \<open>apos;\<close>, \<open>quot;\<close>, \<open>#\<close> digits \<open>;\<close> or \<open>#x\<close>
  hexadecimal digits \<open>;\<close>, in any mix of cases): the second fix leaves no other
  \<open>&\<close>, and the fixes after it add only \<open>&lt;\<close> and \<open>>\<close> and split no tail.
\<close>

theorem C10_no_bare_ampersand:
  assumes "fixedContent (heuristicRepair P x) = pre @ 0x26 # suf"
  shows "\<exists>tail rest. suf = tail @ rest \<and> recognized_tail tail"
proof -
  have "all_amp_escaped (fixedContent (heuristicRepair P x))"
    unfolding fixedContent_heuristicRepair by (rule escaped_after_fixes)
  then have "entity_tail_ci suf" using assms by (rule all_amp_escaped_at)
  then show ?thesis unfolding entity_tail_ci_iff .
qed

theorem C10_no_bare_ampersand_witness:
  "fixedContent (heuristicRepair parseFragment (js ''A & B'')) = js ''A '' @ 0x26 # js ''amp; B'' \<and>
   (\<exists>tail rest. js ''amp; B'' = tail @ rest \<and> recognized_tail tail)"
proof -
  have 1: "fixedContent (heuristicRepair parseFragment (js ''A & B'')) = js ''A '' @ 0x26 # js ''amp; B''"
    by code_simp
  from C10_no_bare_ampersand [OF 1] 1 show ?thesis by blast
qed

end
